theory Spec2Isabelle
  imports Main "HOL-Library.AList" "HOL-Library.Sublist"
begin

section \<open>The test runner of pkg/runner/test\_runner.go\<close>

text \<open>
  The runner is concurrent: one handler goroutine per target, a worker and a reader per
  step, and the main goroutine that monitors, waits and examines the final state. The
  embedding keeps the sequential code of \<open>Run\<close>, \<open>waitSteps\<close> and \<open>handleTarget\<close>
  as it is written and takes everything that code only observes (what a step answers, what
  a channel delivers, whether the context is canceled or paused, what the JSON codec and the
  steps-variables container return) from an environment record. A theorem that quantifies
  over the environment therefore holds for every behaviour of the steps and every
  interleaving.
\<close>

subsection \<open>Errors and panics\<close>

text \<open>
  Go's \<open>error\<close> values. \<open>ErrPaused\<close> and \<open>ErrCanceled\<close> are the sentinels of
  xcontext, \<open>ErrTestStepsNeverReturned\<close> is the cerrors struct with its \<open>StepNames\<close>;
  the three \<open>fmt.Errorf\<close> calls of the file are kept as constructors with their arguments,
  and \<open>ErrOther\<close> stands for any error made elsewhere (step fatals, codec errors).
  A nil error is \<open>None\<close>.
\<close>

datatype error =
    ErrPaused
  | ErrCanceled
  | ErrTestStepsNeverReturned "string list"
  | ErrInvalidResumeState error
  | ErrIncompatibleResumeState int int
  | ErrInvalidPhase int
  | ErrOther string

datatype panic = NilPointerDereference | IndexOutOfRange

datatype 'a outcome = Panicked panic | Returned 'a

fun showNat :: "nat \<Rightarrow> string" where
  "showNat n =
     (if n < 10 then [char_of (48 + n)]
      else showNat (n div 10) @ [char_of (48 + n mod 10)])"

declare showNat.simps [simp del]

definition showInt :: "int \<Rightarrow> string" where
  "showInt i = (if i < 0 then CHR ''-'' # showNat (nat (- i)) else showNat (nat i))"

text \<open>
  The message of an error, \<open>err.Error()\<close>. The two errors of the resume parse are
  formatted by \<open>Run\<close> itself (\<open>%w\<close> appends the message of the wrapped error,
  \<open>%d\<close> prints an int in decimal). The text of the other errors is made outside this
  file (the sentinels of xcontext, the cerrors struct) or includes the target's own
  \<open>String\<close> (the invalid-phase error): it is the parameter \<open>ext\<close>.
\<close>

fun Error :: "(error \<Rightarrow> string) \<Rightarrow> error \<Rightarrow> string" where
  "Error ext (ErrInvalidResumeState e) = ''invalid resume state: '' @ Error ext e"
| "Error ext (ErrIncompatibleResumeState v w) =
     ''incompatible resume state version '' @ showInt v @ '' (want '' @ showInt w @ '')''"
| "Error ext (ErrOther s) = s"
| "Error ext e = ext e"

subsection \<open>Data model\<close>

type_synonym bytes = string

text \<open>\<open>targetStepPhase\<close> is an int with six named values.\<close>

type_synonym targetStepPhase = int

definition targetStepPhaseInvalid :: targetStepPhase where "targetStepPhaseInvalid = 0"
definition targetStepPhaseInit :: targetStepPhase where "targetStepPhaseInit = 1"
definition targetStepPhaseBegin :: targetStepPhase where "targetStepPhaseBegin = 2"
definition targetStepPhaseRun :: targetStepPhase where "targetStepPhaseRun = 3"
definition targetStepPhaseObsolete :: targetStepPhase where "targetStepPhaseObsolete = 4"
definition targetStepPhaseEnd :: targetStepPhase where "targetStepPhaseEnd = 5"

datatype Target = Target (ID: string)

type_synonym stepVariables = "(string \<times> bytes) list"

text \<open>
  \<open>targetState\<close>. The field \<open>tgt\<close> is a pointer to the live target: \<open>None\<close> is
  the nil pointer (the field is not serialized, so a state decoded from a snapshot has it
  nil). \<open>Res\<close> is a pointer to the JSON-wrapped error.
\<close>

record targetState =
  tgt :: "Target option"
  CurStep :: int
  CurPhase :: targetStepPhase
  Res :: "error option"
  StepsVariables :: "(string \<times> stepVariables) list"

text \<open>
  \<open>resumeStateStruct\<close>. \<open>Targets\<close> is a Go map from IDs to pointers, kept as an
  association list whose order stands for the order in which a \<open>range\<close> over the map
  happens to visit it; a JSON \<open>null\<close> decodes to a nil pointer, \<open>None\<close>.
\<close>

record resumeStateStruct =
  Version :: int
  Targets :: "(string \<times> targetState option) list"
  StepResumeState :: "bytes list"

definition resumeStateStructVersion :: int where
  "resumeStateStructVersion = 2"

record TestStepBundle =
  TestStepLabel :: string

record Test =
  TestStepsBundles :: "TestStepBundle list"

text \<open>
  Modelled from the spec: the type \<open>stepState\<close> and its constructor \<open>newStepState\<close>
  are declared in a file of the package that is not part of the sources at hand. A step
  state is kept as the arguments \<open>Run\<close> builds it from; \<open>GetTestStepLabel\<close> is the label
  of its bundle and \<open>GetInitResumeState\<close> the resume state it was built with (spec 3:
  "initResumeState (opaque blob supplied by resume)"). What a step does when it runs is
  not modelled here: it comes from the environment.
\<close>

record stepState =
  stepIndex :: nat
  leftTargets :: nat
  stepBundle :: TestStepBundle
  initResumeState :: bytes
  resumeStateTargets :: "Target list"

definition newStepState ::
  "nat \<Rightarrow> nat \<Rightarrow> TestStepBundle \<Rightarrow> bytes \<Rightarrow> Target list \<Rightarrow> stepState" where
  "newStepState i n sb srs rts =
     \<lparr>stepIndex = i, leftTargets = n, stepBundle = sb, initResumeState = srs,
      resumeStateTargets = rts\<rparr>"

definition GetTestStepLabel :: "stepState \<Rightarrow> string" where
  "GetTestStepLabel ss = TestStepLabel (stepBundle ss)"

definition GetInitResumeState :: "stepState \<Rightarrow> bytes" where
  "GetInitResumeState ss = initResumeState ss"

record TestRunner =
  shutdownTimeout :: nat
  steps :: "stepState list"

definition NewTestRunnerWithTimeouts :: "nat \<Rightarrow> TestRunner" where
  "NewTestRunnerWithTimeouts d = \<lparr>shutdownTimeout = d, steps = []\<rparr>"

subsection \<open>The target handler\<close>

text \<open>
  What one handler observes, by step index: whether the early select finds the context
  paused or done, the error of \<open>ss.Run\<close>, the error of \<open>ss.InjectTarget\<close>, and which
  case of the final select fires, with its value. A handler visits a step index at most
  once, so a function of the index describes every behaviour.
\<close>

datatype awaitOutcome =
    TargetResult "error option"
  | StepStopped "error option"
  | CtxDone "error option"

record handlerEnv =
  earlyStop :: "int \<Rightarrow> bool"
  stepRun :: "int \<Rightarrow> error option"
  injectTarget :: "int \<Rightarrow> error option"
  awaitResult :: "int \<Rightarrow> awaitOutcome"

text \<open>
  The trace of a handler: every write to \<open>CurStep\<close>/\<open>CurPhase\<close> with the pair it leaves
  (made under the runner's mutex, so the two writes of a step change are one event),
  and every call on a step state.
\<close>

datatype event =
    SetState int targetStepPhase
  | CallRun int
  | CallInject int
  | CallDecrease int

datatype iterOut =
    IterBreak
  | IterReturn "error option"
  | IterPanic panic
  | IterNext

text \<open>
  Lines 440 to 450, the part of the loop body after the result has been awaited without
  error: a target
  with a result leaves the loop, any other moves to the next step, and its state is
  advanced only while the next index is inside the pipeline.
\<close>

definition advance :: "int \<Rightarrow> int \<Rightarrow> targetState \<Rightarrow> event list \<Rightarrow>
    iterOut \<times> targetState \<times> event list \<times> bool" where
  "advance n i tgs evs =
     (if Res tgs \<noteq> None then (IterBreak, tgs, evs, True)
      else if i + 1 < n then
        (IterNext, tgs\<lparr>CurStep := i + 1, CurPhase := targetStepPhaseInit\<rparr>,
         evs @ [SetState (i + 1) targetStepPhaseInit], True)
      else (IterNext, tgs, evs, True))"

text \<open>
  Lines 386 to 450, from \<open>ss.Run\<close> to the end of the loop body. \<open>InjectTarget\<close> is
  called in phase run too (the step is built with the targets it resumes with). The
  fourth component says whether the
  step's \<open>DecreaseLeftTargets\<close> was called (\<open>lastDecremented = i\<close>).
\<close>

definition inject :: "handlerEnv \<Rightarrow> int \<Rightarrow> int \<Rightarrow> targetState \<Rightarrow> event list \<Rightarrow>
    iterOut \<times> targetState \<times> event list \<times> bool" where
  "inject E n i tgs evs =
     (case stepRun E i of
        Some e \<Rightarrow> (IterReturn (Some e), tgs, evs @ [CallRun i, CallDecrease i], True)
      | None \<Rightarrow>
        (case injectTarget E i of
           Some e \<Rightarrow>
             (IterReturn (Some e), tgs, evs @ [CallRun i, CallInject i, CallDecrease i], True)
         | None \<Rightarrow>
           (let tgs1 = (if CurPhase tgs = targetStepPhaseBegin
                        then tgs\<lparr>CurPhase := targetStepPhaseRun\<rparr> else tgs);
                evs1 = evs @ [CallRun i, CallInject i]
                  @ (if CurPhase tgs = targetStepPhaseBegin
                     then [SetState (CurStep tgs) targetStepPhaseRun] else [])
                  @ [CallDecrease i]
            in case awaitResult E i of
                 TargetResult res \<Rightarrow>
                   advance n i
                     (tgs1\<lparr>Res := (if res \<noteq> None then res else Res tgs1),
                           CurPhase := targetStepPhaseEnd\<rparr>)
                     (evs1 @ [SetState (CurStep tgs1) targetStepPhaseEnd])
               | StepStopped None \<Rightarrow> advance n i tgs1 evs1
               | StepStopped (Some e) \<Rightarrow> (IterReturn (Some e), tgs1, evs1, True)
               | CtxDone None \<Rightarrow> advance n i tgs1 evs1
               | CtxDone (Some e) \<Rightarrow> (IterReturn (Some e), tgs1, evs1, True))))"

text \<open>
  Lines 355 to 450, one pass of the loop body at index \<open>i\<close>, with
  \<open>n = len(tr.steps)\<close>: the early select, \<open>tr.steps[i]\<close>, the switch on the phase.
\<close>

definition handleIter :: "handlerEnv \<Rightarrow> int \<Rightarrow> int \<Rightarrow> targetState \<Rightarrow>
    iterOut \<times> targetState \<times> event list \<times> bool" where
  "handleIter E n i tgs =
     (if earlyStop E i then (IterBreak, tgs, [], False)
      else if i < 0 \<or> n \<le> i then (IterPanic IndexOutOfRange, tgs, [], False)
      else if CurPhase tgs = targetStepPhaseInit then
        inject E n i (tgs\<lparr>CurPhase := targetStepPhaseBegin\<rparr>)
          [SetState (CurStep tgs) targetStepPhaseBegin]
      else if CurPhase tgs = targetStepPhaseBegin then inject E n i tgs []
      else if CurPhase tgs = targetStepPhaseRun then inject E n i tgs []
      else if CurPhase tgs = targetStepPhaseEnd then (IterBreak, tgs, [], False)
      else (IterReturn (Some (ErrInvalidPhase (CurPhase tgs))), tgs, [], False))"

text \<open>
  Lines 353 to 451, the loop \<open>for i := tgs.CurStep; i < len(tr.steps); { ... }\<close>. It returns how the loop
  ended, the state, the trace and \<open>lastDecremented\<close>.
\<close>

function targetLoop :: "handlerEnv \<Rightarrow> int \<Rightarrow> int \<Rightarrow> targetState \<Rightarrow> int \<Rightarrow>
    iterOut \<times> targetState \<times> event list \<times> int" where
  "targetLoop E n i tgs lastDec =
     (if i < n then
        (case handleIter E n i tgs of
           (IterNext, tgs', evs, d) \<Rightarrow>
             (case targetLoop E n (i + 1) tgs' (if d then i else lastDec) of
                (k, tgs'', evs', ld) \<Rightarrow> (k, tgs'', evs @ evs', ld))
         | (k, tgs', evs, d) \<Rightarrow> (k, tgs', evs, if d then i else lastDec))
      else (IterBreak, tgs, [], lastDec))"
  by pat_completeness auto
termination
  by (relation "measure (\<lambda>(E, n, i, tgs, lastDec). nat (n - i))") auto

declare targetLoop.simps [simp del]

text \<open>
  Lines 340 to 453, \<open>handleTarget\<close>. The deferred function decrements the steps after the last one
  decremented and indexes \<open>tr.steps\<close> from \<open>lastDecremented + 1\<close>, which is negative only
  for a state resumed with a negative \<open>CurStep\<close>. \<open>tgs.tgt.ID\<close> dereferences the
  target pointer before the loop. A panic in a goroutine ends the program.
\<close>

record handlerResult =
  hErr :: "error option"
  hState :: targetState
  hTrace :: "event list"

definition handleTarget :: "stepState list \<Rightarrow> handlerEnv \<Rightarrow> targetState \<Rightarrow>
    handlerResult outcome" where
  "handleTarget ss E tgs =
     (let n = int (length ss) in
      case tgt tgs of
        None \<Rightarrow> Panicked NilPointerDereference
      | Some t \<Rightarrow>
        (case targetLoop E n (CurStep tgs) tgs (CurStep tgs - 1) of
           (k, tgs', evs, lastDec) \<Rightarrow>
             (if lastDec + 1 < n \<and> lastDec + 1 < 0 then Panicked IndexOutOfRange
              else case k of
                  IterPanic p \<Rightarrow> Panicked p
                | IterReturn e \<Rightarrow>
                    Returned \<lparr>hErr = e, hState = tgs',
                      hTrace = evs @ map CallDecrease [lastDec + 1 .. n - 1]\<rparr>
                | _ \<Rightarrow>
                    Returned \<lparr>hErr = None, hState = tgs',
                      hTrace = evs @ map CallDecrease [lastDec + 1 .. n - 1]\<rparr>)))"

subsection \<open>The environment of a run\<close>

text \<open>
  \<open>StepResult\<close> as \<open>WaitResults\<close> returns it, the calls \<open>Run\<close> and \<open>waitSteps\<close>
  make on step states (by position in \<open>tr.steps\<close>), and what arrives on the two
  channels the monitor loop selects on.
\<close>

record stepResult =
  resErr :: "error option"
  resResumeState :: bytes

datatype stepCall = StepSetError nat error | StepForceStop nat

datatype chanEvent = TargetDone string | StepError "error option"

text \<open>
  Everything \<open>Run\<close> observes and does not compute. The JSON codec and the
  steps-variables container build their own errors (never the context's sentinels), so
  they answer with a message, kept as \<open>ErrOther\<close>. \<open>received\<close> is the order in which
  the monitor loop receives from its channels until \<open>targetErrors\<close> is closed:
  \<open>TargetDone id\<close> delivers what the handler of \<open>id\<close> returned. \<open>ctxDone\<close> and
  \<open>ctxPaused\<close> say whether the outer context is canceled, and notified with Paused,
  when \<open>Run\<close> selects on it. The model takes every blocking call to return.
\<close>

record runEnv =
  jsonUnmarshal :: "bytes \<Rightarrow> string + resumeStateStruct"
  jsonMarshal :: "resumeStateStruct \<Rightarrow> string + bytes"
  newTestStepsVariables :: "TestStepBundle list \<Rightarrow> string option"
  initTargetStepsVariables :: "string \<Rightarrow> (string \<times> stepVariables) list \<Rightarrow> string option"
  getTargetStepsVariables :: "string \<Rightarrow> string + (string \<times> stepVariables) list"
  handlerEnvOf :: "string \<Rightarrow> handlerEnv"
  received :: "chanEvent list"
  stepStarted :: "nat \<Rightarrow> bool"
  waitResults :: "nat \<Rightarrow> stepResult \<times> error option"
  stepGetError :: "nat \<Rightarrow> error option"
  ctxDone :: bool
  ctxPaused :: bool

subsection \<open>waitSteps\<close>

text \<open>
  Lines 306 to 336. The loop over \<open>tr.steps\<close> with its three accumulators \<open>stepsNeverReturned\<close>,
  \<open>resumeStates\<close> and \<open>resultErr\<close>, and the calls it makes. Any error of
  \<open>WaitResults\<close> is taken as the step not having returned.
\<close>

fun waitLoop :: "runEnv \<Rightarrow> nat \<Rightarrow> stepState list \<Rightarrow> string list \<Rightarrow> bytes list \<Rightarrow>
    error option \<Rightarrow> stepCall list \<Rightarrow> string list \<times> bytes list \<times> error option \<times> stepCall list" where
  "waitLoop E k [] nr rs re cs = (nr, rs, re, cs)"
| "waitLoop E k (ss # rest) nr rs re cs =
     (if \<not> stepStarted E k then
        waitLoop E (Suc k) rest nr (rs @ [GetInitResumeState ss]) re cs
      else
        (case waitResults E k of
           (result, Some err) \<Rightarrow>
             waitLoop E (Suc k) rest (nr @ [GetTestStepLabel ss])
               (rs @ [resResumeState result]) re
               (cs @ [StepSetError k (ErrTestStepsNeverReturned [GetTestStepLabel ss]),
                      StepForceStop k])
         | (result, None) \<Rightarrow>
             waitLoop E (Suc k) rest nr (rs @ [resResumeState result])
               (if re = None \<and> resErr result \<noteq> None \<and> resErr result \<noteq> Some ErrPaused
                then resErr result else re)
               cs))"

definition waitSteps :: "runEnv \<Rightarrow> stepState list \<Rightarrow>
    bytes list \<times> error option \<times> stepCall list" where
  "waitSteps E ss =
     (case waitLoop E 0 ss [] [] None [] of
        (nr, rs, re, cs) \<Rightarrow>
          (rs,
           (if 0 < length nr \<and> re = None then Some (ErrTestStepsNeverReturned nr) else re),
           cs))"

subsection \<open>Run\<close>

text \<open>
  What \<open>Run\<close> returns, \<open>(resume state, targets results, error)\<close>, with the state it
  leaves behind: the target states, \<open>tr.steps\<close>, the traces of the handlers and the
  calls made on the steps. A nil slice is the empty list, a nil map is \<open>None\<close>.
\<close>

record runResult =
  rSnapshot :: bytes
  rResults :: "(string \<times> error option) list option"
  rErr :: "error option"
  rTargetStates :: "(string \<times> targetState) list"
  rSteps :: "stepState list"
  rTraces :: "(string \<times> event list) list"
  rStepCalls :: "stepCall list"

datatype 'a stage = Panics panic | Fails error | Continues 'a

text \<open>Lines 108 to 119: parse the resume state, if any.\<close>

definition parseResume :: "runEnv \<Rightarrow> bytes \<Rightarrow> error + resumeStateStruct" where
  "parseResume E resumeState =
     (if 0 < length resumeState then
        (case jsonUnmarshal E resumeState of
           Inl err \<Rightarrow> Inl (ErrInvalidResumeState (ErrOther err))
         | Inr rs \<Rightarrow>
             if Version rs \<noteq> resumeStateStructVersion
             then Inl (ErrIncompatibleResumeState (Version rs) resumeStateStructVersion)
             else Inr rs)
      else Inr \<lparr>Version = 0, Targets = [], StepResumeState = []\<rparr>)"

text \<open>Lines 128 to 137: a state for every target, restored or new.\<close>

fun seedTargets :: "Target list \<Rightarrow> (string \<times> targetState option) list \<Rightarrow>
    (string \<times> targetState option) list" where
  "seedTargets [] ts = ts"
| "seedTargets (t # rest) ts =
     (let tgs = (case map_of ts (ID t) of
                   Some (Some s) \<Rightarrow> s
                 | _ \<Rightarrow> \<lparr>tgt = None, CurStep = 0, CurPhase = targetStepPhaseInit,
                          Res = None, StepsVariables = []\<rparr>)
      in seedTargets rest (AList.update (ID t) (Some (tgs\<lparr>tgt := Some t\<rparr>)) ts))"

text \<open>
  Lines 145 to 150: \<open>targetState.StepsVariables\<close> dereferences every pointer of the
  map, so a nil entry left by the snapshot panics here.
\<close>

fun initTargets :: "runEnv \<Rightarrow> (string \<times> targetState option) list \<Rightarrow>
    (string \<times> targetState) list stage" where
  "initTargets E [] = Continues []"
| "initTargets E ((targetID, None) # rest) = Panics NilPointerDereference"
| "initTargets E ((targetID, Some s) # rest) =
     (case initTargetStepsVariables E targetID (StepsVariables s) of
        Some err \<Rightarrow> Fails (ErrOther err)
      | None \<Rightarrow>
        (case initTargets E rest of
           Continues ts \<Rightarrow> Continues ((targetID, s) # ts)
         | Panics p \<Rightarrow> Panics p
         | Fails e \<Rightarrow> Fails e))"

text \<open>
  Lines 163 to 172, for step \<open>i\<close>: the count of the targets that will pass through the
  step and the targets resumed while running in it; \<open>*tgt.tgt\<close> dereferences the target
  pointer.
\<close>

fun collectTargets :: "int \<Rightarrow> (string \<times> targetState) list \<Rightarrow> nat \<Rightarrow> Target list \<Rightarrow>
    (nat \<times> Target list) outcome" where
  "collectTargets i [] c rts = Returned (c, rts)"
| "collectTargets i ((targetID, s) # rest) c rts =
     (let c' = (if CurStep s \<le> i then Suc c else c) in
      if CurStep s = i \<and> CurPhase s = targetStepPhaseRun then
        (case tgt s of
           None \<Rightarrow> Panicked NilPointerDereference
         | Some t \<Rightarrow> collectTargets i rest c' (rts @ [t]))
      else collectTargets i rest c' rts)"

text \<open>Lines 154 to 178: the pipeline, appended to \<open>tr.steps\<close>.\<close>

fun buildSteps :: "bytes list \<Rightarrow> (string \<times> targetState) list \<Rightarrow> nat \<Rightarrow>
    TestStepBundle list \<Rightarrow> stepState list \<Rightarrow> stepState list outcome" where
  "buildSteps srss ts i [] acc = Returned acc"
| "buildSteps srss ts i (sb # rest) acc =
     (let srs = (if i < length srss \<and> srss ! i \<noteq> ''null'' then srss ! i else []) in
      case collectTargets (int i) ts 0 [] of
        Panicked p \<Rightarrow> Panicked p
      | Returned (c, rts) \<Rightarrow>
          buildSteps srss ts (Suc i) rest (acc @ [newStepState i c sb srs rts]))"

text \<open>Lines 180 to 193: one handler per target state.\<close>

fun runHandlers :: "stepState list \<Rightarrow> (string \<Rightarrow> handlerEnv) \<Rightarrow>
    (string \<times> targetState) list \<Rightarrow> (string \<times> handlerResult) list outcome" where
  "runHandlers ss he [] = Returned []"
| "runHandlers ss he ((targetID, s) # rest) =
     (case handleTarget ss (he targetID) s of
        Panicked p \<Rightarrow> Panicked p
      | Returned r \<Rightarrow>
        (case runHandlers ss he rest of
           Panicked p \<Rightarrow> Panicked p
         | Returned rs \<Rightarrow> Returned ((targetID, r) # rs)))"

text \<open>
  Lines 195 to 218: the monitor loop over what the channels deliver, keeping the first
  error that is neither nil nor Paused and force-stopping every step when it arrives.
\<close>

fun monitorLoop :: "nat \<Rightarrow> error option list \<Rightarrow> error option \<Rightarrow> stepCall list \<Rightarrow>
    error option \<times> stepCall list" where
  "monitorLoop n [] resultErr cs = (resultErr, cs)"
| "monitorLoop n (runErr # rest) resultErr cs =
     (if runErr \<noteq> None \<and> runErr \<noteq> Some ErrPaused \<and> resultErr = None
      then monitorLoop n rest runErr (cs @ map StepForceStop [0 ..< n])
      else monitorLoop n rest resultErr cs)"

definition deliver :: "(string \<times> handlerResult) list \<Rightarrow> chanEvent \<Rightarrow> error option" where
  "deliver hs ev =
     (case ev of
        TargetDone targetID \<Rightarrow> (case map_of hs targetID of Some r \<Rightarrow> hErr r | None \<Rightarrow> None)
      | StepError e \<Rightarrow> e)"

text \<open>
  Lines 241 to 261: the loop over \<open>targets\<close> that stores the steps variables and
  computes \<open>resumeOk\<close>; \<open>tr.steps[tgs.CurStep]\<close> is an index into the pipeline. The
  counter of in-flight targets is only logged and is left out.
\<close>

fun examine :: "runEnv \<Rightarrow> int \<Rightarrow> Target list \<Rightarrow> (string \<times> targetState) list \<Rightarrow> bool \<Rightarrow>
    ((string \<times> targetState) list \<times> bool) stage" where
  "examine E n [] ts resumeOk = Continues (ts, resumeOk)"
| "examine E n (t # rest) ts resumeOk =
     (case map_of ts (ID t) of
        None \<Rightarrow> Panics NilPointerDereference
      | Some tgs \<Rightarrow>
        (case getTargetStepsVariables E (ID t) of
           Inl err \<Rightarrow> Fails (ErrOther err)
         | Inr vars \<Rightarrow>
             if CurStep tgs < 0 \<or> n \<le> CurStep tgs then Panics IndexOutOfRange
             else
               (let stepErr = stepGetError E (nat (CurStep tgs));
                    ok1 = (if CurPhase tgs = targetStepPhaseRun \<and> stepErr \<noteq> Some ErrPaused
                           then False else resumeOk);
                    ok2 = (if stepErr \<noteq> None \<and> stepErr \<noteq> Some ErrPaused
                           then False else ok1)
                in examine E n rest
                     (AList.update (ID t) (tgs\<lparr>StepsVariables := vars\<rparr>) ts) ok2)))"

text \<open>Lines 295 to 302: the results map.\<close>

fun targetsResults :: "int \<Rightarrow> (string \<times> targetState) list \<Rightarrow> (string \<times> error option) list" where
  "targetsResults n [] = []"
| "targetsResults n ((targetID, state) # rest) =
     (if Res state \<noteq> None then (targetID, Res state) # targetsResults n rest
      else if CurStep state = n - 1 \<and> CurPhase state = targetStepPhaseEnd
      then (targetID, None) # targetsResults n rest
      else targetsResults n rest)"

definition failed :: "error \<Rightarrow> (string \<times> targetState) list \<Rightarrow> stepState list \<Rightarrow>
    (string \<times> event list) list \<Rightarrow> stepCall list \<Rightarrow> runResult" where
  "failed e ts ss trs cs =
     \<lparr>rSnapshot = [], rResults = None, rErr = Some e, rTargetStates = ts, rSteps = ss,
      rTraces = trs, rStepCalls = cs\<rparr>"

text \<open>
  Lines 268 to 303, after the examination: the error return, the pause path and the
  results. \<open>resumeState\<close> is the parameter of \<open>Run\<close>, assigned only on the pause path.
\<close>

definition finish :: "runEnv \<Rightarrow> bytes \<Rightarrow> error option \<Rightarrow> bool \<Rightarrow> bytes list \<Rightarrow>
    (string \<times> targetState) list \<Rightarrow> stepState list \<Rightarrow> (string \<times> event list) list \<Rightarrow>
    stepCall list \<Rightarrow> runResult" where
  "finish E resumeState runErr resumeOk stepResumeStates ts ss trs cs =
     (case runErr of
        Some e \<Rightarrow> failed e ts ss trs cs
      | None \<Rightarrow>
          if ctxPaused E \<and> resumeOk then
            (case jsonMarshal E
                    \<lparr>Version = resumeStateStructVersion,
                     Targets = map (\<lambda>(targetID, s). (targetID, Some s)) ts,
                     StepResumeState = stepResumeStates\<rparr> of
               Inl err \<Rightarrow> failed (ErrOther err) ts ss trs cs
             | Inr b \<Rightarrow>
                 \<lparr>rSnapshot = b,
                  rResults = Some (targetsResults (int (length ss)) ts),
                  rErr = Some ErrPaused, rTargetStates = ts, rSteps = ss,
                  rTraces = trs, rStepCalls = cs\<rparr>)
          else
            \<lparr>rSnapshot = resumeState,
             rResults = Some (targetsResults (int (length ss)) ts),
             rErr = None, rTargetStates = ts, rSteps = ss,
             rTraces = trs, rStepCalls = cs\<rparr>)"

text \<open>Lines 222 to 224: the error of \<open>waitSteps\<close> counts when the monitor recorded none.\<close>

definition afterWait :: "error option \<Rightarrow> error option \<Rightarrow> error option" where
  "afterWait runErr err = (if err \<noteq> None \<and> runErr = None then err else runErr)"

text \<open>
  Lines 180 to 303: the handlers, the monitor loop, \<open>waitSteps\<close>, the cancellation
  check and the examination of the final state.
\<close>

definition runPipeline :: "runEnv \<Rightarrow> stepState list \<Rightarrow> Target list \<Rightarrow>
    (string \<times> targetState) list \<Rightarrow> bytes \<Rightarrow> runResult outcome" where
  "runPipeline E ss targets ts resumeState =
     (case runHandlers ss (handlerEnvOf E) ts of
        Panicked p \<Rightarrow> Panicked p
      | Returned hs \<Rightarrow>
        (let ts1 = map (\<lambda>(targetID, r). (targetID, hState r)) hs;
             trs = map (\<lambda>(targetID, r). (targetID, hTrace r)) hs
         in case monitorLoop (length ss) (map (deliver hs) (received E)) None [] of
           (monErr, cs1) \<Rightarrow>
           (case waitSteps E ss of
              (stepResumeStates, err, cs2) \<Rightarrow>
              (let runErr = (if ctxDone E then Some ErrCanceled else afterWait monErr err)
               in case examine E (int (length ss)) targets ts1 (runErr = None) of
                    Panics p \<Rightarrow> Panicked p
                  | Fails e \<Rightarrow> Returned (failed e ts1 ss trs (cs1 @ cs2))
                  | Continues (ts2, resumeOk) \<Rightarrow>
                      Returned (finish E resumeState runErr resumeOk stepResumeStates
                                  ts2 ss trs (cs1 @ cs2))))))"

text \<open>
  Lines 108 to 178: everything before the handlers are started. Each of the three early
  returns gives \<open>nil, nil, err\<close>.
\<close>

definition setUp :: "TestRunner \<Rightarrow> runEnv \<Rightarrow> Test \<Rightarrow> Target list \<Rightarrow> bytes \<Rightarrow>
    ((string \<times> targetState) list \<times> stepState list) stage" where
  "setUp tr E t targets resumeState =
     (case parseResume E resumeState of
        Inl e \<Rightarrow> Fails e
      | Inr rs \<Rightarrow>
        (case newTestStepsVariables E (TestStepsBundles t) of
           Some err \<Rightarrow> Fails (ErrOther err)
         | None \<Rightarrow>
           (case initTargets E (seedTargets targets (Targets rs)) of
              Panics p \<Rightarrow> Panics p
            | Fails e \<Rightarrow> Fails e
            | Continues ts \<Rightarrow>
              (case buildSteps (StepResumeState rs) ts 0 (TestStepsBundles t) (steps tr) of
                 Panicked p \<Rightarrow> Panics p
               | Returned ss \<Rightarrow> Continues (ts, ss)))))"

text \<open>\<open>Run\<close>.\<close>

definition Run :: "TestRunner \<Rightarrow> runEnv \<Rightarrow> Test \<Rightarrow> Target list \<Rightarrow> bytes \<Rightarrow>
    runResult outcome" where
  "Run tr E t targets resumeState =
     (case setUp tr E t targets resumeState of
        Panics p \<Rightarrow> Panicked p
      | Fails e \<Rightarrow> Returned (failed e [] (steps tr) [] [])
      | Continues (ts, ss) \<Rightarrow> runPipeline E ss targets ts resumeState)"

text \<open>The steps on which some handler called \<open>Run\<close>, the only place that starts a step.\<close>

fun startedIn :: "event list \<Rightarrow> int list" where
  "startedIn [] = []"
| "startedIn (CallRun i # evs) = i # startedIn evs"
| "startedIn (ev # evs) = startedIn evs"

definition stepsStarted :: "runResult \<Rightarrow> int list" where
  "stepsStarted r = concat (map (\<lambda>(targetID, evs). startedIn evs) (rTraces r))"

subsection \<open>Notions the properties are stated with\<close>

text \<open>The writes to \<open>(CurStep, CurPhase)\<close> of a trace, in order.\<close>

fun writes :: "event list \<Rightarrow> (int \<times> targetStepPhase) list" where
  "writes [] = []"
| "writes (SetState s p # evs) = (s, p) # writes evs"
| "writes (ev # evs) = writes evs"

definition curState :: "targetState \<Rightarrow> int \<times> targetStepPhase" where
  "curState tgs = (CurStep tgs, CurPhase tgs)"

text \<open>
  The moves the handler makes: to the next phase of the same step, or to phase init of
  the next step, from phase end or, when the step stopped with no error, from phase run.
\<close>

definition forwardWrite :: "int \<times> targetStepPhase \<Rightarrow> int \<times> targetStepPhase \<Rightarrow> bool" where
  "forwardWrite a b =
     ((fst b = fst a \<and>
        ((snd a = targetStepPhaseInit \<and> snd b = targetStepPhaseBegin) \<or>
         (snd a = targetStepPhaseBegin \<and> snd b = targetStepPhaseRun) \<or>
         (snd a = targetStepPhaseRun \<and> snd b = targetStepPhaseEnd))) \<or>
      (fst b = fst a + 1 \<and> snd b = targetStepPhaseInit \<and>
        (snd a = targetStepPhaseEnd \<or> snd a = targetStepPhaseRun)))"

text \<open>The total order on \<open>(CurStep, CurPhase)\<close>: by step, then by phase.\<close>

definition stateLess :: "int \<times> targetStepPhase \<Rightarrow> int \<times> targetStepPhase \<Rightarrow> bool" where
  "stateLess a b = (fst a < fst b \<or> (fst a = fst b \<and> snd a < snd b))"

definition follows :: "int \<times> targetStepPhase \<Rightarrow> event list \<Rightarrow> int \<times> targetStepPhase \<Rightarrow> bool" where
  "follows x evs y = (successively forwardWrite (x # writes evs) \<and> last (x # writes evs) = y)"

text \<open>A target is terminal when it has a result or has ended the last step.\<close>

definition terminal :: "int \<Rightarrow> targetState \<Rightarrow> bool" where
  "terminal n st =
     (Res st \<noteq> None \<or> (CurStep st = n - 1 \<and> CurPhase st = targetStepPhaseEnd))"

text \<open>A started step that \<open>WaitResults\<close> gave up on.\<close>

definition neverReturned :: "runEnv \<Rightarrow> nat \<Rightarrow> bool" where
  "neverReturned E k = (stepStarted E k \<and> snd (waitResults E k) \<noteq> None)"

text \<open>
  The resume state a step contributes, the calls made on it, and the steps that did not
  report a fatal error of their own when they returned.
\<close>

definition resumeOf :: "runEnv \<Rightarrow> nat \<times> stepState \<Rightarrow> bytes" where
  "resumeOf E = (\<lambda>(k, ss). if \<not> stepStarted E k then GetInitResumeState ss
                              else resResumeState (fst (waitResults E k)))"

definition callsOf :: "runEnv \<Rightarrow> nat \<times> stepState \<Rightarrow> stepCall list" where
  "callsOf E = (\<lambda>(k, ss). if neverReturned E k
       then [StepSetError k (ErrTestStepsNeverReturned [GetTestStepLabel ss]), StepForceStop k] else [])"

definition noFatalResult :: "runEnv \<Rightarrow> nat \<Rightarrow> bool" where
  "noFatalResult E k = (\<not> stepStarted E k \<or> snd (waitResults E k) \<noteq> None \<or>
      resErr (fst (waitResults E k)) = None \<or> resErr (fst (waitResults E k)) = Some ErrPaused)"

text \<open>The run error as the examination sees it: after the monitor, the wait and the cancellation check.\<close>

definition runErrOf :: "runEnv \<Rightarrow> stepState list \<Rightarrow> (string \<times> handlerResult) list \<Rightarrow> error option" where
  "runErrOf E ss hs =
     (if ctxDone E then Some ErrCanceled
      else afterWait (fst (monitorLoop (length ss) (map (deliver hs) (received E)) None []))
             (fst (snd (waitSteps E ss))))"

text \<open>What the results map holds for a state: its result, nil for a target that ended the last step, or nothing.\<close>

definition resultOf :: "int \<Rightarrow> targetState \<Rightarrow> error option option" where
  "resultOf n st =
     (if Res st \<noteq> None then Some (Res st)
      else if CurStep st = n - 1 \<and> CurPhase st = targetStepPhaseEnd then Some None
      else None)"

text \<open>The decoder gives a Go map: no ID twice.\<close>

definition decodesMaps :: "runEnv \<Rightarrow> bytes \<Rightarrow> bool" where
  "decodesMaps E b =
     (if 0 < length b
      then (case jsonUnmarshal E b of
              Inl msg \<Rightarrow> True
            | Inr rs \<Rightarrow> distinct (map fst (Targets rs)))
      else True)"

text \<open>
  Some state of the map is in phase run at step \<open>i\<close> with a nil target pointer: what
  the collection of the targets a step resumes with dereferences.
\<close>

definition nilRunning :: "(string \<times> targetState) list \<Rightarrow> int \<Rightarrow> bool" where
  "nilRunning ts i =
     list_ex (\<lambda>(targetID, st). CurStep st = i \<and> CurPhase st = targetStepPhaseRun \<and> tgt st = None) ts"

text \<open>The state \<open>Run\<close> creates for a target that has none.\<close>

definition freshState :: "Target \<Rightarrow> targetState" where
  "freshState x = \<lparr>tgt = Some x, CurStep = 0, CurPhase = targetStepPhaseInit,
                   Res = None, StepsVariables = []\<rparr>"

subsection \<open>Concrete runs\<close>

text \<open>
  A target \<open>T1\<close> as \<open>Run\<close> creates it, pipelines of one and two steps, and a handler
  environment in which every step accepts the target and passes it.
\<close>

definition freshT1 :: targetState where
  "freshT1 = \<lparr>tgt = Some (Target ''T1''), CurStep = 0, CurPhase = targetStepPhaseInit,
              Res = None, StepsVariables = []\<rparr>"

definition oneStep :: "stepState list" where
  "oneStep = [newStepState 0 1 \<lparr>TestStepLabel = ''Step1''\<rparr> [] []]"

definition twoSteps :: "stepState list" where
  "twoSteps = [newStepState 0 1 \<lparr>TestStepLabel = ''Step1''\<rparr> [] [],
               newStepState 1 1 \<lparr>TestStepLabel = ''Step2''\<rparr> [] []]"

definition passAll :: handlerEnv where
  "passAll = \<lparr>earlyStop = (\<lambda>i. False), stepRun = (\<lambda>i. None), injectTarget = (\<lambda>i. None),
              awaitResult = (\<lambda>i. TargetResult None)\<rparr>"

definition passedTwo :: handlerResult where
  "passedTwo =
     \<lparr>hErr = None,
      hState = \<lparr>tgt = Some (Target ''T1''), CurStep = 1, CurPhase = targetStepPhaseEnd,
                Res = None, StepsVariables = []\<rparr>,
      hTrace = [SetState 0 2, CallRun 0, CallInject 0, SetState 0 3, CallDecrease 0,
                SetState 0 5, SetState 1 1, SetState 1 2, CallRun 1, CallInject 1,
                SetState 1 3, CallDecrease 1, SetState 1 5]\<rparr>"

definition passedOne :: handlerResult where
  "passedOne =
     \<lparr>hErr = None,
      hState = \<lparr>tgt = Some (Target ''T1''), CurStep = 0, CurPhase = targetStepPhaseEnd,
                Res = None, StepsVariables = []\<rparr>,
      hTrace = [SetState 0 2, CallRun 0, CallInject 0, SetState 0 3, CallDecrease 0,
                SetState 0 5]\<rparr>"

text \<open>
  An environment in which nothing goes wrong: the codec rejects every input, the
  steps-variables container accepts everything, every handler sees its target passed, the
  monitor hears from the handler of \<open>T1\<close>, every step is started and returns in time with
  no error, and the context is neither canceled nor paused. The environments of the
  examples below change single fields of it.
\<close>

definition calmEnv :: runEnv where
  "calmEnv =
     \<lparr>jsonUnmarshal = (\<lambda>b. Inl ''invalid character''),
      jsonMarshal = (\<lambda>rs. Inr ''snapshot''),
      newTestStepsVariables = (\<lambda>bs. None),
      initTargetStepsVariables = (\<lambda>targetID vars. None),
      getTargetStepsVariables = (\<lambda>targetID. Inr []),
      handlerEnvOf = (\<lambda>targetID. passAll),
      received = [TargetDone ''T1''],
      stepStarted = (\<lambda>k. True),
      waitResults = (\<lambda>k. (\<lparr>resErr = None, resResumeState = []\<rparr>, None)),
      stepGetError = (\<lambda>k. None),
      ctxDone = False,
      ctxPaused = False\<rparr>"

text \<open>
  Two steps, the second built with a resume state; the first is started and does not
  return before the deadline, the second is never started.
\<close>

definition twoStepsResumed :: "stepState list" where
  "twoStepsResumed = [newStepState 0 1 \<lparr>TestStepLabel = ''Step1''\<rparr> [] [],
                      newStepState 1 1 \<lparr>TestStepLabel = ''Step2''\<rparr> ''srs2'' []]"

definition hangingEnv :: runEnv where
  "hangingEnv = calmEnv
     \<lparr>stepStarted := (\<lambda>k. k = 0),
      waitResults := (\<lambda>k. (\<lparr>resErr = None, resResumeState = []\<rparr>,
                             Some (ErrOther ''context deadline exceeded'')))\<rparr>"

definition oneBundle :: Test where
  "oneBundle = \<lparr>TestStepsBundles = [\<lparr>TestStepLabel = ''Step1''\<rparr>]\<rparr>"

text \<open>A decoder that reads a snapshot whose version key was renamed: the version is 0.\<close>

definition versionlessEnv :: runEnv where
  "versionlessEnv = calmEnv
     \<lparr>jsonUnmarshal := (\<lambda>b. Inr \<lparr>Version = 0, Targets = [], StepResumeState = []\<rparr>)\<rparr>"

definition canceledEnv :: runEnv where
  "canceledEnv = calmEnv\<lparr>ctxDone := True\<rparr>"

definition canceledOne :: runResult where
  "canceledOne =
     \<lparr>rSnapshot = [], rResults = None, rErr = Some ErrCanceled,
      rTargetStates = [(''T1'', hState passedOne)],
      rSteps = oneStep,
      rTraces = [(''T1'', hTrace passedOne)],
      rStepCalls = []\<rparr>"

text \<open>A step in which every target fails, and a run of two targets of which the first fails.\<close>

definition failAll :: handlerEnv where
  "failAll = passAll\<lparr>awaitResult := (\<lambda>i. TargetResult (Some (ErrOther ''target failed'')))\<rparr>"

definition mixedEnv :: runEnv where
  "mixedEnv = calmEnv
     \<lparr>handlerEnvOf := (\<lambda>targetID. if targetID = ''T1'' then failAll else passAll),
      received := [TargetDone ''T1'', TargetDone ''T2'']\<rparr>"

definition failedT1 :: targetState where
  "failedT1 = \<lparr>tgt = Some (Target ''T1''), CurStep = 0, CurPhase = targetStepPhaseEnd,
               Res = Some (ErrOther ''target failed''), StepsVariables = []\<rparr>"

definition passedT2 :: targetState where
  "passedT2 = \<lparr>tgt = Some (Target ''T2''), CurStep = 0, CurPhase = targetStepPhaseEnd,
               Res = None, StepsVariables = []\<rparr>"

definition mixedRun :: runResult where
  "mixedRun =
     \<lparr>rSnapshot = [],
      rResults = Some [(''T1'', Some (ErrOther ''target failed'')), (''T2'', None)],
      rErr = None,
      rTargetStates = [(''T1'', failedT1), (''T2'', passedT2)],
      rSteps = [newStepState 0 2 \<lparr>TestStepLabel = ''Step1''\<rparr> [] []],
      rTraces = [(''T1'', hTrace passedOne), (''T2'', hTrace passedOne)],
      rStepCalls = []\<rparr>"

text \<open>The step of a run does not return before the deadline, after its only target failed.\<close>

definition failHangEnv :: runEnv where
  "failHangEnv = hangingEnv\<lparr>handlerEnvOf := (\<lambda>targetID. failAll)\<rparr>"

definition failHangRun :: runResult where
  "failHangRun =
     \<lparr>rSnapshot = [], rResults = None,
      rErr = Some (ErrTestStepsNeverReturned [''Step1'']),
      rTargetStates = [(''T1'', failedT1)],
      rSteps = oneStep,
      rTraces = [(''T1'', hTrace passedOne)],
      rStepCalls = [StepSetError 0 (ErrTestStepsNeverReturned [''Step1'']), StepForceStop 0]\<rparr>"

definition noBundle :: Test where
  "noBundle = \<lparr>TestStepsBundles = []\<rparr>"

text \<open>
  A snapshot that holds, besides nothing else, a state for a target \<open>TX\<close> that a later
  call does not list: once waiting at step 0 in phase begin, once running in step 0.
\<close>

definition strayBegin :: targetState where
  "strayBegin = \<lparr>tgt = None, CurStep = 0, CurPhase = targetStepPhaseBegin, Res = None,
                 StepsVariables = []\<rparr>"

definition strayRun :: targetState where
  "strayRun = \<lparr>tgt = None, CurStep = 0, CurPhase = targetStepPhaseRun, Res = None,
               StepsVariables = []\<rparr>"

definition strayEnv :: runEnv where
  "strayEnv = calmEnv
     \<lparr>jsonUnmarshal := (\<lambda>b.
        if b = ''{V:2,T:{TX:{P:2}}}''
        then Inr \<lparr>Version = 2, Targets = [(''TX'', Some strayBegin)], StepResumeState = []\<rparr>
        else if b = ''{V:2,T:{TX:{P:3}}}''
        then Inr \<lparr>Version = 2, Targets = [(''TX'', Some strayRun)], StepResumeState = []\<rparr>
        else Inl ''invalid character'')\<rparr>"

text \<open>
  A run that is resumed from the snapshot of a run paused before its target was picked up,
  and then completes.
\<close>

definition resumingEnv :: runEnv where
  "resumingEnv = calmEnv
     \<lparr>jsonUnmarshal := (\<lambda>b.
        if b = ''{V:2,T:{T1:{P:1}}}''
        then Inr \<lparr>Version = 2,
                  Targets = [(''T1'', Some \<lparr>tgt = None, CurStep = 0,
                                CurPhase = targetStepPhaseInit, Res = None,
                                StepsVariables = []\<rparr>)],
                  StepResumeState = []\<rparr>
        else Inl ''invalid character'')\<rparr>"

definition resumedRun :: runResult where
  "resumedRun =
     \<lparr>rSnapshot = ''{V:2,T:{T1:{P:1}}}'',
      rResults = Some [(''T1'', None)],
      rErr = None,
      rTargetStates = [(''T1'', hState passedOne)],
      rSteps = oneStep,
      rTraces = [(''T1'', hTrace passedOne)],
      rStepCalls = []\<rparr>"

section \<open>Properties\<close>

lemmas phase_defs =
  targetStepPhaseInvalid_def targetStepPhaseInit_def targetStepPhaseBegin_def
  targetStepPhaseRun_def targetStepPhaseObsolete_def targetStepPhaseEnd_def

subsection \<open>The handler moves a target forward\<close>

lemma writes_append: "writes (a @ b) = writes a @ writes b"
  by (induction a rule: writes.induct) auto

lemma writes_decrease: "writes (map CallDecrease xs) = []"
  by (induction xs) auto

lemma forwardWrite_less: "forwardWrite a b \<Longrightarrow> stateLess a b"
  by (auto simp: forwardWrite_def stateLess_def phase_defs)

lemma stateLess_trans: "stateLess a b \<Longrightarrow> stateLess b c \<Longrightarrow> stateLess a c"
  by (auto simp: stateLess_def)

lemma follows_nil: "follows x [] x"
  by (simp add: follows_def)

lemma follows_snoc_write:
  "follows x evs y \<Longrightarrow> forwardWrite y (s, p) \<Longrightarrow> follows x (evs @ [SetState s p]) (s, p)"
  unfolding follows_def
  by (auto simp: writes_append successively_append_iff simp flip: append_Cons split: if_splits)

lemma follows_snoc_call:
  "follows x evs y \<Longrightarrow> writes cs = [] \<Longrightarrow> follows x (evs @ cs) y"
  unfolding follows_def by (simp add: writes_append)

lemma follows_append:
  "follows x evs y \<Longrightarrow> follows y evs' z \<Longrightarrow> follows x (evs @ evs') z"
  unfolding follows_def
  apply (auto simp: writes_append  simp flip: append_Cons)
   apply (subst successively_append_iff)
  apply (auto simp: successively_Cons  simp del: append_Cons split: if_splits)
  done

lemma advance_follows:
  assumes "advance n i tgs evs = (k, tgs', evs', d)"
    and "CurStep tgs = i"
    and "CurPhase tgs = targetStepPhaseEnd \<or> CurPhase tgs = targetStepPhaseRun"
    and "follows x evs (curState tgs)"
  shows "follows x evs' (curState tgs') \<and> (k = IterNext \<longrightarrow> i + 1 < n \<longrightarrow> CurStep tgs' = i + 1)"
proof (cases "Res tgs \<noteq> None")
  case True
  with assms show ?thesis by (auto simp: advance_def)
next
  case False
  show ?thesis
  proof (cases "i + 1 < n")
    case True
    have fw: "forwardWrite (curState tgs) (i + 1, targetStepPhaseInit)"
      using assms(2,3) by (auto simp: forwardWrite_def curState_def)
    from follows_snoc_write[OF assms(4) fw] assms(1) False True show ?thesis
      by (auto simp: advance_def curState_def)
  next
    case F2: False
    with assms False show ?thesis by (auto simp: advance_def)
  qed
qed

lemma inject_follows:
  assumes "inject E n i tgs evs = (k, tgs', evs', d)"
    and "CurStep tgs = i"
    and "CurPhase tgs = targetStepPhaseBegin \<or> CurPhase tgs = targetStepPhaseRun"
    and "follows x evs (curState tgs)"
  shows "follows x evs' (curState tgs') \<and> (k = IterNext \<longrightarrow> i + 1 < n \<longrightarrow> CurStep tgs' = i + 1)"
proof (cases "stepRun E i")
  case (Some e)
  with assms(1) have "tgs' = tgs" "evs' = evs @ [CallRun i, CallDecrease i]" "k = IterReturn (Some e)"
    by (auto simp: inject_def)
  with follows_snoc_call[OF assms(4), of "[CallRun i, CallDecrease i]"] show ?thesis by simp
next
  case None
  note run = None
  show ?thesis
  proof (cases "injectTarget E i")
    case (Some e)
    with assms(1) run
    have "tgs' = tgs" "evs' = evs @ [CallRun i, CallInject i, CallDecrease i]" "k = IterReturn (Some e)"
      by (auto simp: inject_def)
    with follows_snoc_call[OF assms(4), of "[CallRun i, CallInject i, CallDecrease i]"]
    show ?thesis by simp
  next
    case None
    define tgs1 where "tgs1 = (if CurPhase tgs = targetStepPhaseBegin
                        then tgs\<lparr>CurPhase := targetStepPhaseRun\<rparr> else tgs)"
    define evs1 where "evs1 = evs @ [CallRun i, CallInject i]
                  @ (if CurPhase tgs = targetStepPhaseBegin
                     then [SetState (CurStep tgs) targetStepPhaseRun] else [])
                  @ [CallDecrease i]"
    have s1: "CurStep tgs1 = i" "CurPhase tgs1 = targetStepPhaseRun"
      using assms(2,3) by (auto simp: tgs1_def)
    have f0: "follows x (evs @ [CallRun i, CallInject i]) (curState tgs)"
      using follows_snoc_call[OF assms(4), of "[CallRun i, CallInject i]"] by simp
    have f1: "follows x (evs @ [CallRun i, CallInject i]
                  @ (if CurPhase tgs = targetStepPhaseBegin
                     then [SetState (CurStep tgs) targetStepPhaseRun] else [])) (curState tgs1)"
    proof (cases "CurPhase tgs = targetStepPhaseBegin")
      case True
      have "forwardWrite (curState tgs) (CurStep tgs, targetStepPhaseRun)"
        using True by (simp add: forwardWrite_def curState_def)
      from follows_snoc_write[OF f0 this] True show ?thesis
        by (simp add: tgs1_def curState_def)
    next
      case False
      with f0 show ?thesis by (simp add: tgs1_def)
    qed
    have f2: "follows x evs1 (curState tgs1)"
      using follows_snoc_call[OF f1, of "[CallDecrease i]"] by (simp add: evs1_def)
    have body: "inject E n i tgs evs =
      (case awaitResult E i of
                 TargetResult res \<Rightarrow>
                   advance n i
                     (tgs1\<lparr>Res := (if res \<noteq> None then res else Res tgs1),
                           CurPhase := targetStepPhaseEnd\<rparr>)
                     (evs1 @ [SetState (CurStep tgs1) targetStepPhaseEnd])
               | StepStopped None \<Rightarrow> advance n i tgs1 evs1
               | StepStopped (Some e) \<Rightarrow> (IterReturn (Some e), tgs1, evs1, True)
               | CtxDone None \<Rightarrow> advance n i tgs1 evs1
               | CtxDone (Some e) \<Rightarrow> (IterReturn (Some e), tgs1, evs1, True))"
      unfolding inject_def tgs1_def evs1_def Let_def run None by simp
    have adv1: "advance n i tgs1 evs1 = (k, tgs', evs', d) \<Longrightarrow> ?thesis"
      using advance_follows[of n i tgs1 evs1 k tgs' evs' d x] s1 f2 by simp
    show ?thesis
    proof (cases "awaitResult E i")
      case (TargetResult res)
      let ?t = "tgs1\<lparr>Res := (if res \<noteq> None then res else Res tgs1),
                           CurPhase := targetStepPhaseEnd\<rparr>"
      have "forwardWrite (curState tgs1) (CurStep tgs1, targetStepPhaseEnd)"
        using s1 by (simp add: forwardWrite_def curState_def)
      from follows_snoc_write[OF f2 this]
      have f3: "follows x (evs1 @ [SetState (CurStep tgs1) targetStepPhaseEnd]) (curState ?t)"
        by (simp add: curState_def)
      have a3: "advance n i ?t (evs1 @ [SetState (CurStep tgs1) targetStepPhaseEnd]) = (k, tgs', evs', d)"
        using body assms(1) TargetResult by simp
      have "CurStep ?t = i" "CurPhase ?t = targetStepPhaseEnd \<or> CurPhase ?t = targetStepPhaseRun"
        using s1 by simp_all
      from advance_follows[OF a3 this f3] show ?thesis .
    next
      case (StepStopped e)
      show ?thesis
      proof (cases e)
        case None
        with body assms(1) StepStopped adv1 show ?thesis by simp
      next
        case (Some a)
        with body assms(1) StepStopped f2 show ?thesis by auto
      qed
    next
      case (CtxDone e)
      show ?thesis
      proof (cases e)
        case None
        with body assms(1) CtxDone adv1 show ?thesis by simp
      next
        case (Some a)
        with body assms(1) CtxDone f2 show ?thesis by auto
      qed
    qed
  qed
qed

lemma handleIter_follows:
  assumes "handleIter E n i tgs = (k, tgs', evs, d)" and "CurStep tgs = i"
  shows "follows (curState tgs) evs (curState tgs') \<and> (k = IterNext \<longrightarrow> i + 1 < n \<longrightarrow> CurStep tgs' = i + 1)"
proof -
  have init: "CurPhase tgs = targetStepPhaseInit \<Longrightarrow>
      follows (curState tgs) [SetState (CurStep tgs) targetStepPhaseBegin]
         (curState (tgs\<lparr>CurPhase := targetStepPhaseBegin\<rparr>))"
    using follows_snoc_write[OF follows_nil, of "curState tgs" "CurStep tgs" targetStepPhaseBegin]
    by (simp add: forwardWrite_def curState_def)
  show ?thesis
    using assms init
      inject_follows[of E n i "tgs\<lparr>CurPhase := targetStepPhaseBegin\<rparr>"
        "[SetState (CurStep tgs) targetStepPhaseBegin]" k tgs' evs d "curState tgs"]
      inject_follows[of E n i tgs "[]" k tgs' evs d "curState tgs"]
    by (auto simp: handleIter_def follows_nil split: if_splits)
qed

lemma targetLoop_follows:
  "(i < n \<longrightarrow> CurStep tgs = i) \<Longrightarrow> targetLoop E n i tgs ld = (k, tgs', evs, ld') \<Longrightarrow>
     follows (curState tgs) evs (curState tgs')"
proof (induction E n i tgs ld arbitrary: k tgs' evs ld' rule: targetLoop.induct)
  case (1 E n i tgs lastDec)
  show ?case
  proof (cases "i < n")
    case False
    with "1.prems" show ?thesis by (simp add: targetLoop.simps follows_nil)
  next
    case True
    obtain k1 t1 e1 d1 where it: "handleIter E n i tgs = (k1, t1, e1, d1)"
      by (cases "handleIter E n i tgs") auto
    from handleIter_follows[OF it] True "1.prems"(1)
    have f1: "follows (curState tgs) e1 (curState t1)"
      and nx: "k1 = IterNext \<Longrightarrow> i + 1 < n \<Longrightarrow> CurStep t1 = i + 1" by auto
    show ?thesis
    proof (cases "k1 = IterNext")
      case False
      with "1.prems"(2) True it have "tgs' = t1" "evs = e1"
        by (auto simp: targetLoop.simps[of E n i tgs lastDec] split: iterOut.splits)
      with f1 show ?thesis by simp
    next
      case N: True
      obtain k2 t2 e2 l2 where rec: "targetLoop E n (i + 1) t1 (if d1 then i else lastDec) = (k2, t2, e2, l2)"
        by (cases "targetLoop E n (i + 1) t1 (if d1 then i else lastDec)") auto
      have "follows (curState t1) e2 (curState t2)"
        using "1.IH"[OF True it[symmetric] N refl refl _ rec] nx N by auto
      moreover have "tgs' = t2" "evs = e1 @ e2"
        using "1.prems"(2) True it N rec by (auto simp: targetLoop.simps[of E n i tgs lastDec])
      ultimately show ?thesis using follows_append[OF f1] by simp
    qed
  qed
qed

lemma successively_sorted_stateLess:
  "successively forwardWrite xs \<Longrightarrow> sorted_wrt stateLess xs"
proof -
  assume "successively forwardWrite xs"
  then have "successively stateLess xs"
    by (rule successively_mono) (auto intro: forwardWrite_less)
  moreover have "transp stateLess"
    by (auto simp: transp_def intro: stateLess_trans)
  ultimately show ?thesis
    by (simp add: successively_conv_sorted_wrt)
qed

lemma handleTarget_follows:
  assumes "handleTarget ss E tgs = Returned r"
  shows "follows (curState tgs) (hTrace r) (curState (hState r))"
proof -
  obtain t where t: "tgt tgs = Some t"
    using assms by (cases "tgt tgs") (auto simp: handleTarget_def)
  obtain k tgs' evs ld where
    lp: "targetLoop E (int (length ss)) (CurStep tgs) tgs (CurStep tgs - 1) = (k, tgs', evs, ld)"
    by (cases "targetLoop E (int (length ss)) (CurStep tgs) tgs (CurStep tgs - 1)") auto
  have f: "follows (curState tgs) evs (curState tgs')"
    using targetLoop_follows[OF _ lp] by simp
  have "hState r = tgs' \<and> hTrace r = evs @ map CallDecrease [ld + 1 .. int (length ss) - 1]"
    using assms t lp
    by (auto simp: handleTarget_def Let_def split: if_splits iterOut.splits)
  with follows_snoc_call[OF f writes_decrease] show ?thesis by simp
qed

text \<open>
  C4. Every write the target handler makes to \<open>(CurStep, CurPhase)\<close> moves the pair
  strictly forward in the order by step and then by phase init, begin, run, end: each
  write goes to the next phase of the same step or to phase init of the next step, the
  sequence of the pairs a handler leaves is strictly increasing from the pair it starts
  with, and it ends in the state the handler returns.
\<close>

theorem handleTarget_moves_forward:
  assumes "handleTarget ss E tgs = Returned r"
  shows "successively forwardWrite (curState tgs # writes (hTrace r)) \<and>
         sorted_wrt stateLess (curState tgs # writes (hTrace r)) \<and>
         last (curState tgs # writes (hTrace r)) = curState (hState r)"
  using handleTarget_follows[OF assms] successively_sorted_stateLess
  unfolding follows_def by blast

lemma handleTarget_passedTwo: "handleTarget twoSteps passAll freshT1 = Returned passedTwo"
  by code_simp

theorem handleTarget_moves_forward_witness:
  "handleTarget twoSteps passAll freshT1 = Returned passedTwo \<and>
   successively forwardWrite (curState freshT1 # writes (hTrace passedTwo)) \<and>
   sorted_wrt stateLess (curState freshT1 # writes (hTrace passedTwo)) \<and>
   last (curState freshT1 # writes (hTrace passedTwo)) = curState (hState passedTwo)"
  using handleTarget_moves_forward[OF handleTarget_passedTwo] handleTarget_passedTwo
  by simp

subsection \<open>The range of \<open>CurStep\<close>\<close>

lemma handleIter_bound:
  assumes "handleIter E n i tgs = (k, tgs', evs, d)" and "CurStep tgs = i" and "0 \<le> i" and "i < n"
  shows "(\<forall>x \<in> set (writes evs). 0 \<le> fst x \<and> fst x < n) \<and> 0 \<le> CurStep tgs' \<and> CurStep tgs' < n
     \<and> (k = IterNext \<longrightarrow> i + 1 < n \<longrightarrow> CurStep tgs' = i + 1)"
  using assms
  by (auto simp: handleIter_def inject_def advance_def Let_def writes_append
      split: if_splits option.splits awaitOutcome.splits)

lemma targetLoop_bound:
  "0 \<le> i \<Longrightarrow> CurStep tgs < n \<Longrightarrow> 0 \<le> CurStep tgs \<Longrightarrow> (i < n \<longrightarrow> CurStep tgs = i) \<Longrightarrow>
   targetLoop E n i tgs ld = (k, tgs', evs, ld') \<Longrightarrow>
     (\<forall>x \<in> set (writes evs). 0 \<le> fst x \<and> fst x < n) \<and> 0 \<le> CurStep tgs' \<and> CurStep tgs' < n"
proof (induction E n i tgs ld arbitrary: k tgs' evs ld' rule: targetLoop.induct)
  case (1 E n i tgs lastDec)
  show ?case
  proof (cases "i < n")
    case False
    with "1.prems" show ?thesis by (simp add: targetLoop.simps)
  next
    case True
    obtain k1 t1 e1 d1 where it: "handleIter E n i tgs = (k1, t1, e1, d1)"
      by (cases "handleIter E n i tgs") auto
    from handleIter_bound[OF it] True "1.prems"
    have b1: "\<forall>x \<in> set (writes e1). 0 \<le> fst x \<and> fst x < n" "0 \<le> CurStep t1" "CurStep t1 < n"
      and nx: "k1 = IterNext \<Longrightarrow> i + 1 < n \<Longrightarrow> CurStep t1 = i + 1" by auto
    show ?thesis
    proof (cases "k1 = IterNext")
      case False
      with "1.prems"(5) True it have "tgs' = t1" "evs = e1"
        by (auto simp: targetLoop.simps[of E n i tgs lastDec] split: iterOut.splits)
      with b1 show ?thesis by simp
    next
      case N: True
      obtain k2 t2 e2 l2 where rec: "targetLoop E n (i + 1) t1 (if d1 then i else lastDec) = (k2, t2, e2, l2)"
        by (cases "targetLoop E n (i + 1) t1 (if d1 then i else lastDec)") auto
      have "(\<forall>x \<in> set (writes e2). 0 \<le> fst x \<and> fst x < n) \<and> 0 \<le> CurStep t2 \<and> CurStep t2 < n"
        using "1.IH"[OF True it[symmetric] N refl refl _ _ _ _ rec] nx N b1 "1.prems"(1) by auto
      moreover have "tgs' = t2" "evs = e1 @ e2"
        using "1.prems"(5) True it N rec by (auto simp: targetLoop.simps[of E n i tgs lastDec])
      ultimately show ?thesis using b1 by (auto simp: writes_append)
    qed
  qed
qed

lemma handleIter_last:
  assumes "handleIter E n i tgs = (k, tgs', evs, d)" and "CurStep tgs = i"
    and "CurPhase tgs \<noteq> targetStepPhaseEnd" and "i < n"
  shows "(k = IterNext \<longrightarrow> (if i + 1 < n then CurPhase tgs' = targetStepPhaseInit
                                else CurStep tgs' = n - 1)) \<and>
         (k \<noteq> IterNext \<longrightarrow> CurPhase tgs' = targetStepPhaseEnd \<longrightarrow> Res tgs' \<noteq> None)"
  using assms
  by (auto simp: handleIter_def inject_def advance_def Let_def phase_defs
      split: if_splits option.splits awaitOutcome.splits)

lemma targetLoop_last:
  "(i < n \<longrightarrow> CurStep tgs = i \<and> CurPhase tgs \<noteq> targetStepPhaseEnd) \<Longrightarrow>
   (\<not> i < n \<longrightarrow> CurStep tgs = n - 1) \<Longrightarrow>
   targetLoop E n i tgs ld = (k, tgs', evs, ld') \<Longrightarrow>
   CurPhase tgs' = targetStepPhaseEnd \<Longrightarrow> Res tgs' = None \<Longrightarrow> CurStep tgs' = n - 1"
proof (induction E n i tgs ld arbitrary: k tgs' evs ld' rule: targetLoop.induct)
  case (1 E n i tgs lastDec)
  show ?case
  proof (cases "i < n")
    case False
    with "1.prems" show ?thesis by (simp add: targetLoop.simps)
  next
    case True
    obtain k1 t1 e1 d1 where it: "handleIter E n i tgs = (k1, t1, e1, d1)"
      by (cases "handleIter E n i tgs") auto
    from "1.prems"(1) True have c: "CurStep tgs = i" "CurPhase tgs \<noteq> targetStepPhaseEnd"
      by auto
    note l = handleIter_last[OF it c True]
    from handleIter_follows[OF it c(1)]
    have nx: "k1 = IterNext \<Longrightarrow> i + 1 < n \<Longrightarrow> CurStep t1 = i + 1" by auto
    show ?thesis
    proof (cases "k1 = IterNext")
      case False
      with "1.prems"(3) True it have "tgs' = t1"
        by (auto simp: targetLoop.simps[of E n i tgs lastDec] split: iterOut.splits)
      with l False "1.prems"(4,5) show ?thesis by simp
    next
      case N: True
      obtain k2 t2 e2 l2 where rec: "targetLoop E n (i + 1) t1 (if d1 then i else lastDec) = (k2, t2, e2, l2)"
        by (cases "targetLoop E n (i + 1) t1 (if d1 then i else lastDec)") auto
      have t: "tgs' = t2"
        using "1.prems"(3) True it N rec by (auto simp: targetLoop.simps[of E n i tgs lastDec])
      have p1: "i + 1 < n \<longrightarrow> CurStep t1 = i + 1 \<and> CurPhase t1 \<noteq> targetStepPhaseEnd"
        using l N nx by (auto simp: phase_defs)
      have p2: "\<not> i + 1 < n \<longrightarrow> CurStep t1 = n - 1"
        using l N by auto
      from "1.IH"[OF True it[symmetric] N refl refl p1 p2 rec] "1.prems"(4,5) t
      show ?thesis by simp
    qed
  qed
qed

lemma handleTarget_last:
  assumes "handleTarget ss E tgs = Returned r"
    and "CurStep tgs < int (length ss)"
    and "CurPhase tgs \<noteq> targetStepPhaseEnd"
    and "CurPhase (hState r) = targetStepPhaseEnd" and "Res (hState r) = None"
  shows "CurStep (hState r) = int (length ss) - 1"
proof -
  obtain t where t: "tgt tgs = Some t"
    using assms(1) by (cases "tgt tgs") (auto simp: handleTarget_def)
  obtain k tgs' evs ld where
    lp: "targetLoop E (int (length ss)) (CurStep tgs) tgs (CurStep tgs - 1) = (k, tgs', evs, ld)"
    by (cases "targetLoop E (int (length ss)) (CurStep tgs) tgs (CurStep tgs - 1)") auto
  have "hState r = tgs'"
    using assms(1) t lp
    by (auto simp: handleTarget_def Let_def split: if_splits iterOut.splits)
  with targetLoop_last[OF _ _ lp] assms(2-5) show ?thesis by simp
qed

text \<open>
  C5 (amended). For a target that enters the handler inside a pipeline of N steps
  (\<open>0 \<le> CurStep < N\<close>, as every new target does when N is at least 1), every value
  the handler writes to \<open>CurStep\<close> and the value it leaves lie in \<open>[0, N - 1]\<close>:
  \<open>CurStep\<close> is never N, also when the target has left the pipeline. A target that
  did not enter in phase end and is left in phase end with no result has passed the last
  step: its \<open>CurStep\<close> is \<open>N - 1\<close>.
\<close>

theorem handleTarget_CurStep_below_N:
  assumes "handleTarget ss E tgs = Returned r"
    and "0 \<le> CurStep tgs" and "CurStep tgs < int (length ss)"
  shows "(\<forall>x \<in> set (writes (hTrace r)). 0 \<le> fst x \<and> fst x < int (length ss)) \<and>
         0 \<le> CurStep (hState r) \<and> CurStep (hState r) < int (length ss) \<and>
         (CurPhase tgs \<noteq> targetStepPhaseEnd \<and> CurPhase (hState r) = targetStepPhaseEnd \<and>
          Res (hState r) = None \<longrightarrow> CurStep (hState r) = int (length ss) - 1)"
proof -
  obtain t where t: "tgt tgs = Some t"
    using assms(1) by (cases "tgt tgs") (auto simp: handleTarget_def)
  obtain k tgs' evs ld where
    lp: "targetLoop E (int (length ss)) (CurStep tgs) tgs (CurStep tgs - 1) = (k, tgs', evs, ld)"
    by (cases "targetLoop E (int (length ss)) (CurStep tgs) tgs (CurStep tgs - 1)") auto
  have b: "(\<forall>x \<in> set (writes evs). 0 \<le> fst x \<and> fst x < int (length ss)) \<and>
           0 \<le> CurStep tgs' \<and> CurStep tgs' < int (length ss)"
    using targetLoop_bound[OF assms(2) assms(3) assms(2) _ lp] by simp
  have "hState r = tgs' \<and> hTrace r = evs @ map CallDecrease [ld + 1 .. int (length ss) - 1]"
    using assms(1) t lp
    by (auto simp: handleTarget_def Let_def split: if_splits iterOut.splits)
  with b handleTarget_last[OF assms(1,3)] show ?thesis
    by (auto simp: writes_append writes_decrease)
qed

lemma handleTarget_passedOne: "handleTarget oneStep passAll freshT1 = Returned passedOne"
  by code_simp

theorem handleTarget_CurStep_below_N_witness:
  "handleTarget oneStep passAll freshT1 = Returned passedOne \<and>
   0 \<le> CurStep freshT1 \<and> CurStep freshT1 < int (length oneStep) \<and>
   list_all (\<lambda>x. 0 \<le> fst x \<and> fst x < int (length oneStep)) (writes (hTrace passedOne)) \<and>
   0 \<le> CurStep (hState passedOne) \<and> CurStep (hState passedOne) < int (length oneStep) \<and>
   CurPhase freshT1 \<noteq> targetStepPhaseEnd \<and>
   CurPhase (hState passedOne) = targetStepPhaseEnd \<and> Res (hState passedOne) = None \<and>
   CurStep (hState passedOne) = int (length oneStep) - 1"
proof -
  have h2: "0 \<le> CurStep freshT1" and h3: "CurStep freshT1 < int (length oneStep)"
    by (simp_all add: freshT1_def oneStep_def)
  have h4: "CurPhase freshT1 \<noteq> targetStepPhaseEnd"
      "CurPhase (hState passedOne) = targetStepPhaseEnd" "Res (hState passedOne) = None"
    by (simp_all add: freshT1_def passedOne_def phase_defs)
  from handleTarget_CurStep_below_N[OF handleTarget_passedOne h2 h3] handleTarget_passedOne h2 h3 h4
  show ?thesis unfolding list_all_iff by blast
qed

text \<open>
  The claim as stated fails: a target that is passed by the only step of a pipeline
  (N = 1) has left the pipeline, in phase end with no error, and its \<open>CurStep\<close> is 0,
  not N.
\<close>

theorem CurStep_not_N_after_exit:
  "handleTarget oneStep passAll freshT1 = Returned passedOne \<and>
   hErr passedOne = None \<and>
   CurPhase (hState passedOne) = targetStepPhaseEnd \<and>
   CurStep (hState passedOne) \<noteq> int (length oneStep)"
  using handleTarget_passedOne by (simp add: passedOne_def oneStep_def)

subsection \<open>Waiting for the steps\<close>


lemma waitLoop_closed:
  "waitLoop E k ss nr rs re cs = (nr', rs', re', cs') \<Longrightarrow>
     nr' = nr @ map (GetTestStepLabel \<circ> snd) (filter (neverReturned E \<circ> fst) (enumerate k ss)) \<and>
     rs' = rs @ map (resumeOf E) (enumerate k ss) \<and>
     cs' = cs @ concat (map (callsOf E) (enumerate k ss)) \<and>
     (list_all (noFatalResult E \<circ> fst) (enumerate k ss) \<longrightarrow> re' = re)"
proof (induction ss arbitrary: k nr rs re cs)
  case Nil
  then show ?case by simp
next
  case (Cons s ss)
  show ?case
  proof (cases "stepStarted E k")
    case False
    with Cons.prems
    have "waitLoop E (Suc k) ss nr (rs @ [GetInitResumeState s]) re cs = (nr', rs', re', cs')"
      by simp
    from Cons.IH[OF this] False show ?thesis
      by (simp add: resumeOf_def callsOf_def neverReturned_def noFatalResult_def)
  next
    case True
    obtain result w where w: "waitResults E k = (result, w)"
      by (cases "waitResults E k") auto
    show ?thesis
    proof (cases w)
      case None
      with Cons.prems True w
      have "waitLoop E (Suc k) ss nr (rs @ [resResumeState result])
               (if re = None \<and> resErr result \<noteq> None \<and> resErr result \<noteq> Some ErrPaused
                then resErr result else re) cs = (nr', rs', re', cs')"
        by simp
      from Cons.IH[OF this] True w None show ?thesis
        by (auto simp: resumeOf_def callsOf_def neverReturned_def noFatalResult_def)
    next
      case (Some e)
      with Cons.prems True w
      have "waitLoop E (Suc k) ss (nr @ [GetTestStepLabel s])
               (rs @ [resResumeState result]) re
               (cs @ [StepSetError k (ErrTestStepsNeverReturned [GetTestStepLabel s]),
                      StepForceStop k]) = (nr', rs', re', cs')"
        by simp
      from Cons.IH[OF this] True w Some show ?thesis
        by (auto simp: resumeOf_def callsOf_def neverReturned_def noFatalResult_def)
    qed
  qed
qed

lemma enumerate_0_map: "enumerate 0 xs = map (\<lambda>k. (k, xs ! k)) [0 ..< length xs]"
  by (rule nth_equalityI) (simp_all add: nth_enumerate_eq)

lemma waitSteps_closed:
  assumes "waitSteps E ss = (rs, err, cs)"
  shows "rs = map (\<lambda>k. resumeOf E (k, ss ! k)) [0 ..< length ss]"
    and "cs = concat (map (\<lambda>k. callsOf E (k, ss ! k)) [0 ..< length ss])"
    and "(\<forall>k < length ss. noFatalResult E k) \<Longrightarrow>
         err = (if \<exists>k < length ss. neverReturned E k
                then Some (ErrTestStepsNeverReturned
                  (map (\<lambda>k. GetTestStepLabel (ss ! k)) (filter (neverReturned E) [0 ..< length ss])))
                else None)"
proof -
  obtain nr' rs' re' cs' where wl: "waitLoop E 0 ss [] [] None [] = (nr', rs', re', cs')"
    by (cases "waitLoop E 0 ss [] [] None []") auto
  note c = waitLoop_closed[OF wl]
  have nr: "nr' = map (\<lambda>k. GetTestStepLabel (ss ! k)) (filter (neverReturned E) [0 ..< length ss])"
    using c by (simp add: enumerate_0_map filter_map comp_def)
  from assms wl have eqs: "rs = rs'" "cs = cs'"
     "err = (if 0 < length nr' \<and> re' = None then Some (ErrTestStepsNeverReturned nr') else re')"
    by (auto simp: waitSteps_def)
  show "rs = map (\<lambda>k. resumeOf E (k, ss ! k)) [0 ..< length ss]"
    using c eqs by (simp add: enumerate_0_map comp_def)
  show "cs = concat (map (\<lambda>k. callsOf E (k, ss ! k)) [0 ..< length ss])"
    using c eqs by (simp add: enumerate_0_map comp_def)
  assume q: "\<forall>k < length ss. noFatalResult E k"
  then have "list_all (noFatalResult E \<circ> fst) (enumerate 0 ss)"
    by (simp add: enumerate_0_map list_all_iff)
  with c have re: "re' = None" by simp
  have "(0 < length nr') = (\<exists>k < length ss. neverReturned E k)"
    unfolding nr by (auto simp: filter_empty_conv)
  with eqs re nr show "err = (if \<exists>k < length ss. neverReturned E k
                then Some (ErrTestStepsNeverReturned
                  (map (\<lambda>k. GetTestStepLabel (ss ! k)) (filter (neverReturned E) [0 ..< length ss])))
                else None)"
    by simp
qed


text \<open>
  C8. \<open>waitSteps\<close> returns one resume state per step; a step that was never started
  contributes its initial resume state as it is; on every started step that did not return
  before the deadline \<open>waitSteps\<close> sets the NeverReturned error naming the label of
  that step and force-stops it; and when no fatal error was recorded before (none by the
  monitor, none reported by a step that did return) and some step did not return, the run
  error after the wait is the NeverReturned error that lists the labels of exactly the
  steps that did not return, in pipeline order.
\<close>

theorem waitSteps_never_returned:
  assumes "waitSteps E ss = (rs, err, cs)"
  shows "length rs = length ss \<and>
    (\<forall>k < length ss. \<not> stepStarted E k \<longrightarrow> rs ! k = GetInitResumeState (ss ! k)) \<and>
    (\<forall>k < length ss. neverReturned E k \<longrightarrow>
        StepSetError k (ErrTestStepsNeverReturned [GetTestStepLabel (ss ! k)]) \<in> set cs \<and>
        StepForceStop k \<in> set cs) \<and>
    ((\<exists>k < length ss. neverReturned E k) \<and> (\<forall>k < length ss. noFatalResult E k) \<longrightarrow>
        afterWait None err =
          Some (ErrTestStepsNeverReturned
            (map (\<lambda>k. GetTestStepLabel (ss ! k)) (filter (neverReturned E) [0 ..< length ss]))))"
proof -
  note c = waitSteps_closed[OF assms]
  have "length rs = length ss"
    using c(1) by simp
  moreover have "\<forall>k < length ss. \<not> stepStarted E k \<longrightarrow> rs ! k = GetInitResumeState (ss ! k)"
    using c(1) by (simp add: resumeOf_def)
  moreover have "\<forall>k < length ss. neverReturned E k \<longrightarrow>
        StepSetError k (ErrTestStepsNeverReturned [GetTestStepLabel (ss ! k)]) \<in> set cs \<and>
        StepForceStop k \<in> set cs"
  proof (intro allI impI)
    fix k assume "k < length ss" "neverReturned E k"
    then have "set (callsOf E (k, ss ! k)) \<subseteq> set cs"
      unfolding c(2) by auto
    with \<open>neverReturned E k\<close> show
      "StepSetError k (ErrTestStepsNeverReturned [GetTestStepLabel (ss ! k)]) \<in> set cs \<and>
        StepForceStop k \<in> set cs"
      by (simp add: callsOf_def)
  qed
  moreover have "(\<exists>k < length ss. neverReturned E k) \<and> (\<forall>k < length ss. noFatalResult E k) \<longrightarrow>
        afterWait None err =
          Some (ErrTestStepsNeverReturned
            (map (\<lambda>k. GetTestStepLabel (ss ! k)) (filter (neverReturned E) [0 ..< length ss])))"
    using c(3) by (auto simp: afterWait_def)
  ultimately show ?thesis by blast
qed

lemma waitSteps_hanging:
  "waitSteps hangingEnv twoStepsResumed =
     ([[], ''srs2''], Some (ErrTestStepsNeverReturned [''Step1'']),
      [StepSetError 0 (ErrTestStepsNeverReturned [''Step1'']), StepForceStop 0])"
  by code_simp

theorem waitSteps_never_returned_witness:
  "waitSteps hangingEnv twoStepsResumed =
     ([[], ''srs2''], Some (ErrTestStepsNeverReturned [''Step1'']),
      [StepSetError 0 (ErrTestStepsNeverReturned [''Step1'']), StepForceStop 0]) \<and>
   \<not> stepStarted hangingEnv 1 \<and> GetInitResumeState (twoStepsResumed ! 1) = ''srs2'' \<and>
   neverReturned hangingEnv 0 \<and> GetTestStepLabel (twoStepsResumed ! 0) = ''Step1'' \<and>
   list_all (noFatalResult hangingEnv) [0 ..< length twoStepsResumed] \<and>
   filter (neverReturned hangingEnv) [0 ..< length twoStepsResumed] = [0] \<and>
   afterWait None (Some (ErrTestStepsNeverReturned [''Step1''])) =
     Some (ErrTestStepsNeverReturned [''Step1''])"
proof -
  have facts: "\<not> stepStarted hangingEnv 1" "neverReturned hangingEnv 0"
      "\<not> neverReturned hangingEnv 1"
      "noFatalResult hangingEnv 0" "noFatalResult hangingEnv 1"
      "GetInitResumeState (twoStepsResumed ! 1) = ''srs2''"
      "GetTestStepLabel (twoStepsResumed ! 0) = ''Step1''"
      "length twoStepsResumed = 2"
    by (simp_all add: hangingEnv_def calmEnv_def neverReturned_def noFatalResult_def
        twoStepsResumed_def GetInitResumeState_def GetTestStepLabel_def newStepState_def)
  have upt2: "[0 ..< 2] = [0, Suc 0]"
    by (simp add: upt_rec)
  from waitSteps_never_returned[OF waitSteps_hanging] waitSteps_hanging facts
  show ?thesis
    by (simp add: upt2 afterWait_def)
qed

subsection \<open>The ways \<open>Run\<close> returns\<close>

lemma Run_Returned_cases:
  assumes "Run tr E t targets b = Returned r"
  obtains
    (early) e where "setUp tr E t targets b = Fails e" and "r = failed e [] (steps tr) [] []"
  | (lookup) ts ss hs e trs cs where "setUp tr E t targets b = Continues (ts, ss)"
      and "runHandlers ss (handlerEnvOf E) ts = Returned hs"
      and "examine E (int (length ss)) targets (map (\<lambda>(targetID, r). (targetID, hState r)) hs)
             (runErrOf E ss hs = None) = Fails e"
      and "r = failed e (map (\<lambda>(targetID, r). (targetID, hState r)) hs) ss trs cs"
  | (examined) ts ss hs ts2 resumeOk srs trs cs where "setUp tr E t targets b = Continues (ts, ss)"
      and "runHandlers ss (handlerEnvOf E) ts = Returned hs"
      and "examine E (int (length ss)) targets (map (\<lambda>(targetID, r). (targetID, hState r)) hs)
             (runErrOf E ss hs = None) = Continues (ts2, resumeOk)"
      and "r = finish E b (runErrOf E ss hs) resumeOk srs ts2 ss trs cs"
proof (cases "setUp tr E t targets b")
  case (Panics p)
  with assms show ?thesis by (simp add: Run_def)
next
  case (Fails e)
  with assms early show ?thesis by (simp add: Run_def)
next
  case (Continues x)
  obtain ts ss where x: "x = (ts, ss)" by (cases x)
  with assms Continues have rp: "runPipeline E ss targets ts b = Returned r"
    by (simp add: Run_def)
  show ?thesis
  proof (cases "runHandlers ss (handlerEnvOf E) ts")
    case (Panicked p)
    with rp show ?thesis by (simp add: runPipeline_def)
  next
    case (Returned hs)
    obtain monErr cs1 where m: "monitorLoop (length ss) (map (deliver hs) (received E)) None [] = (monErr, cs1)"
      by (cases "monitorLoop (length ss) (map (deliver hs) (received E)) None []") auto
    obtain srs err cs2 where w: "waitSteps E ss = (srs, err, cs2)"
      by (cases "waitSteps E ss") auto
    have re: "runErrOf E ss hs = (if ctxDone E then Some ErrCanceled else afterWait monErr err)"
      by (simp add: runErrOf_def m w)
    show ?thesis
    proof (cases "examine E (int (length ss)) targets (map (\<lambda>(targetID, r). (targetID, hState r)) hs)
             (runErrOf E ss hs = None)")
      case (Panics p)
      with rp Returned m w re show ?thesis
        by (simp add: runPipeline_def Let_def)
    next
      case (Fails e)
      with rp Returned m w re
      have "r = failed e (map (\<lambda>(targetID, r). (targetID, hState r)) hs) ss
                  (map (\<lambda>(targetID, r). (targetID, hTrace r)) hs) (cs1 @ cs2)"
        by (simp add: runPipeline_def Let_def)
      with lookup Continues x Returned Fails show ?thesis by blast
    next
      case C: (Continues y)
      obtain ts2 resumeOk where y: "y = (ts2, resumeOk)" by (cases y)
      with rp Returned m w re C
      have "r = finish E b (runErrOf E ss hs) resumeOk srs ts2 ss
                  (map (\<lambda>(targetID, r). (targetID, hTrace r)) hs) (cs1 @ cs2)"
        by (simp add: runPipeline_def Let_def)
      with examined Continues x Returned C y show ?thesis by blast
    qed
  qed
qed

lemma monitorLoop_not_paused:
  "monitorLoop n xs re cs = (e, cs') \<Longrightarrow> re \<noteq> Some ErrPaused \<Longrightarrow> e \<noteq> Some ErrPaused"
  by (induction xs arbitrary: re cs) (auto split: if_splits)

lemma waitLoop_not_paused:
  "re \<noteq> Some ErrPaused \<Longrightarrow>
     fst (snd (snd (waitLoop E k ss nr rs re cs))) \<noteq> Some ErrPaused"
proof (induction ss arbitrary: k nr rs re cs)
  case Nil
  then show ?case by simp
next
  case (Cons s ss)
  obtain result w where w: "waitResults E k = (result, w)"
    by (cases "waitResults E k") auto
  show ?case
  proof (cases "stepStarted E k")
    case False
    with Cons show ?thesis by simp
  next
    case True
    show ?thesis
    proof (cases w)
      case None
      have "(if re = None \<and> resErr result \<noteq> None \<and> resErr result \<noteq> Some ErrPaused
                then resErr result else re) \<noteq> Some ErrPaused"
        using Cons.prems by simp
      from Cons.IH[OF this] True w None show ?thesis by simp
    next
      case (Some e)
      from Cons.IH[OF Cons.prems] True w Some show ?thesis by simp
    qed
  qed
qed

lemma waitSteps_not_paused: "fst (snd (waitSteps E ss)) \<noteq> Some ErrPaused"
proof -
  obtain nr' rs' re' cs' where wl: "waitLoop E 0 ss [] [] None [] = (nr', rs', re', cs')"
    by (cases "waitLoop E 0 ss [] [] None []") auto
  from waitLoop_not_paused[of None E 0 ss "[]" "[]" "[]"] wl have "re' \<noteq> Some ErrPaused" by simp
  with wl show ?thesis by (simp add: waitSteps_def)
qed

lemma runErrOf_not_paused: "runErrOf E ss hs \<noteq> Some ErrPaused"
proof -
  obtain monErr cs1 where m: "monitorLoop (length ss) (map (deliver hs) (received E)) None [] = (monErr, cs1)"
    by (cases "monitorLoop (length ss) (map (deliver hs) (received E)) None []") auto
  from monitorLoop_not_paused[OF m] have "monErr \<noteq> Some ErrPaused" by simp
  with waitSteps_not_paused[of E ss] m show ?thesis
    by (simp add: runErrOf_def afterWait_def)
qed

lemma examine_Fails:
  "examine E n targets ts ok = Fails e \<Longrightarrow>
     \<exists>x \<in> set targets. \<exists>msg. getTargetStepsVariables E (ID x) = Inl msg \<and> e = ErrOther msg"
  by (induction targets arbitrary: ts ok)
     (auto simp: Let_def split: option.splits sum.splits if_splits)

lemma initTargets_Fails: "initTargets E ts = Fails e \<Longrightarrow> \<exists>msg. e = ErrOther msg"
  by (induction E ts rule: initTargets.induct) (auto split: option.splits stage.splits)

lemma setUp_Fails:
  "setUp tr E t targets b = Fails e \<Longrightarrow>
     (\<exists>msg. e = ErrOther msg) \<or> (\<exists>e'. e = ErrInvalidResumeState e') \<or>
     (\<exists>v w. e = ErrIncompatibleResumeState v w)"
  by (auto simp: setUp_def parseResume_def
      split: sum.splits option.splits stage.splits outcome.splits if_splits
      dest: initTargets_Fails)

subsection \<open>The resume state is validated first\<close>

lemma sublist_invalid: "sublist ''invalid resume state'' (Error ext (ErrInvalidResumeState e))"
proof -
  have "prefix ''invalid resume state'' (''invalid resume state'' @ '': '' @ Error ext e)"
    by (rule prefixI) simp
  then show ?thesis by simp
qed

lemma sublist_incompatible:
  "sublist ''incompatible resume state'' (Error ext (ErrIncompatibleResumeState v w))"
proof -
  have "prefix ''incompatible resume state''
          (''incompatible resume state'' @ '' version '' @ showInt v @ '' (want '' @ showInt w @ '')'')"
    by (rule prefixI) simp
  then show ?thesis by simp
qed

text \<open>
  C6. For a non-empty resume state: when the decoder rejects the bytes, \<open>Run\<close> returns a
  nil snapshot, nil results and an error whose message contains "invalid resume state";
  when the decoded version is not 2, it returns a nil snapshot, nil results and an error
  whose message contains "incompatible resume state". Either way no handler ran, so no
  step was started, and \<open>tr.steps\<close> is as it was.
\<close>

theorem Run_rejects_resume_state:
  assumes "0 < length b"
  shows "(\<forall>msg. jsonUnmarshal E b = Inl msg \<longrightarrow>
            (\<exists>r e. Run tr E t targets b = Returned r \<and> rSnapshot r = [] \<and> rResults r = None \<and>
               rErr r = Some e \<and> sublist ''invalid resume state'' (Error ext e) \<and>
               stepsStarted r = [] \<and> rSteps r = steps tr)) \<and>
         (\<forall>rs. jsonUnmarshal E b = Inr rs \<and> Version rs \<noteq> 2 \<longrightarrow>
            (\<exists>r e. Run tr E t targets b = Returned r \<and> rSnapshot r = [] \<and> rResults r = None \<and>
               rErr r = Some e \<and> sublist ''incompatible resume state'' (Error ext e) \<and>
               stepsStarted r = [] \<and> rSteps r = steps tr))"
proof (intro conjI allI impI)
  fix msg assume "jsonUnmarshal E b = Inl msg"
  with assms have "Run tr E t targets b =
      Returned (failed (ErrInvalidResumeState (ErrOther msg)) [] (steps tr) [] [])"
    by (simp add: Run_def setUp_def parseResume_def)
  then show "\<exists>r e. Run tr E t targets b = Returned r \<and> rSnapshot r = [] \<and> rResults r = None \<and>
               rErr r = Some e \<and> sublist ''invalid resume state'' (Error ext e) \<and>
               stepsStarted r = [] \<and> rSteps r = steps tr"
    using sublist_invalid by (simp add: failed_def stepsStarted_def)
next
  fix rs assume "jsonUnmarshal E b = Inr rs \<and> Version rs \<noteq> 2"
  with assms have "Run tr E t targets b =
      Returned (failed (ErrIncompatibleResumeState (Version rs) 2) [] (steps tr) [] [])"
    by (simp add: Run_def setUp_def parseResume_def resumeStateStructVersion_def)
  then show "\<exists>r e. Run tr E t targets b = Returned r \<and> rSnapshot r = [] \<and> rResults r = None \<and>
               rErr r = Some e \<and> sublist ''incompatible resume state'' (Error ext e) \<and>
               stepsStarted r = [] \<and> rSteps r = steps tr"
    using sublist_incompatible by (simp add: failed_def stepsStarted_def)
qed

lemma Run_FOO:
  "Run (NewTestRunnerWithTimeouts 3) calmEnv oneBundle [Target ''T1''] ''FOO'' =
     Returned (failed (ErrInvalidResumeState (ErrOther ''invalid character'')) [] [] [] [])"
  by code_simp

lemma Run_versionless:
  "Run (NewTestRunnerWithTimeouts 3) versionlessEnv oneBundle [Target ''T1''] ''renamed'' =
     Returned (failed (ErrIncompatibleResumeState 0 2) [] [] [] [])"
  by code_simp

theorem Run_rejects_resume_state_witness:
  "0 < length ''FOO'' \<and> jsonUnmarshal calmEnv ''FOO'' = Inl ''invalid character'' \<and>
   Run (NewTestRunnerWithTimeouts 3) calmEnv oneBundle [Target ''T1''] ''FOO'' =
     Returned (failed (ErrInvalidResumeState (ErrOther ''invalid character'')) [] [] [] []) \<and>
   sublist ''invalid resume state'' (Error (\<lambda>e. []) (ErrInvalidResumeState (ErrOther ''invalid character''))) \<and>
   0 < length ''renamed'' \<and>
   Version (projr (jsonUnmarshal versionlessEnv ''renamed'')) = 0 \<and>
   Run (NewTestRunnerWithTimeouts 3) versionlessEnv oneBundle [Target ''T1''] ''renamed'' =
     Returned (failed (ErrIncompatibleResumeState 0 2) [] [] [] []) \<and>
   sublist ''incompatible resume state'' (Error (\<lambda>e. []) (ErrIncompatibleResumeState 0 2))"
proof -
  have n1: "0 < length ''FOO''" and n2: "0 < length ''renamed''" by simp_all
  have u1: "jsonUnmarshal calmEnv ''FOO'' = Inl ''invalid character''"
    by (simp add: calmEnv_def)
  have u2: "jsonUnmarshal versionlessEnv ''renamed'' =
      Inr \<lparr>Version = 0, Targets = [], StepResumeState = []\<rparr>"
    by (simp add: versionlessEnv_def calmEnv_def)
  from Run_rejects_resume_state[OF n1, where E = calmEnv and tr = "NewTestRunnerWithTimeouts 3"
      and t = oneBundle and targets = "[Target ''T1'']" and ext = "\<lambda>e. []"]
    u1 Run_FOO
  have "sublist ''invalid resume state'' (Error (\<lambda>e. []) (ErrInvalidResumeState (ErrOther ''invalid character'')))"
    by (auto simp: failed_def)
  moreover
  from Run_rejects_resume_state[OF n2, where E = versionlessEnv and tr = "NewTestRunnerWithTimeouts 3"
      and t = oneBundle and targets = "[Target ''T1'']" and ext = "\<lambda>e. []"]
    u2 Run_versionless
  have "sublist ''incompatible resume state'' (Error (\<lambda>e. []) (ErrIncompatibleResumeState 0 2))"
    by (auto simp: failed_def)
  ultimately show ?thesis
    using n1 n2 u1 u2 Run_FOO Run_versionless by simp
qed

subsection \<open>Cancellation\<close>

text \<open>
  C7 (amended). When \<open>Run\<close> gets past its set-up (the resume state is accepted, the
  steps variables are initialised, the pipeline is built) and the outer context is
  canceled at the cancellation check, then whatever the monitor and the wait for the
  steps recorded and whether or not a pause was notified, a \<open>Run\<close> that returns gives
  a nil snapshot, nil results and the error Canceled, unless the look-up of a target's
  steps variables fails in the final examination, whose error is returned instead.
\<close>

theorem Run_canceled:
  assumes "setUp tr E t targets b = Continues (ts, ss)"
    and "ctxDone E"
    and "Run tr E t targets b = Returned r"
  shows "rSnapshot r = [] \<and> rResults r = None \<and>
         (rErr r = Some ErrCanceled \<or>
          (\<exists>x \<in> set targets. \<exists>msg. getTargetStepsVariables E (ID x) = Inl msg \<and>
             rErr r = Some (ErrOther msg)))"
  using assms(3)
proof (cases rule: Run_Returned_cases)
  case (early e)
  with assms(1) show ?thesis by simp
next
  case (lookup ts' ss' hs e trs cs)
  from examine_Fails[OF lookup(3)] lookup(4) show ?thesis
    by (auto simp: failed_def)
next
  case (examined ts' ss' hs ts2 resumeOk srs trs cs)
  have "runErrOf E ss' hs = Some ErrCanceled"
    using assms(2) by (simp add: runErrOf_def)
  with examined(4) show ?thesis
    by (simp add: finish_def failed_def)
qed

lemma setUp_oneBundle:
  "setUp (NewTestRunnerWithTimeouts 3) canceledEnv oneBundle [Target ''T1''] [] =
     Continues ([(''T1'', freshT1)], oneStep)"
  by code_simp

lemma Run_canceledOne:
  "Run (NewTestRunnerWithTimeouts 3) canceledEnv oneBundle [Target ''T1''] [] = Returned canceledOne"
  by code_simp

theorem Run_canceled_witness:
  "setUp (NewTestRunnerWithTimeouts 3) canceledEnv oneBundle [Target ''T1''] [] =
     Continues ([(''T1'', freshT1)], oneStep) \<and>
   ctxDone canceledEnv \<and>
   Run (NewTestRunnerWithTimeouts 3) canceledEnv oneBundle [Target ''T1''] [] = Returned canceledOne \<and>
   rSnapshot canceledOne = [] \<and> rResults canceledOne = None \<and>
   rErr canceledOne = Some ErrCanceled"
proof -
  have c: "ctxDone canceledEnv"
    by (simp add: canceledEnv_def calmEnv_def)
  from Run_canceled[OF setUp_oneBundle c Run_canceledOne] setUp_oneBundle c Run_canceledOne
  show ?thesis by (simp add: canceledOne_def)
qed

text \<open>
  The claim as stated fails: with the outer context canceled and a resume state that does
  not parse, \<open>Run\<close> returns the parse error, not Canceled.
\<close>

theorem Run_canceled_invalid_resume:
  "ctxDone canceledEnv \<and>
   Run (NewTestRunnerWithTimeouts 3) canceledEnv oneBundle [Target ''T1''] ''FOO'' =
     Returned (failed (ErrInvalidResumeState (ErrOther ''invalid character'')) [] [] [] []) \<and>
   rErr (failed (ErrInvalidResumeState (ErrOther ''invalid character'')) [] [] [] []) \<noteq>
     Some ErrCanceled"
proof -
  have "Run (NewTestRunnerWithTimeouts 3) canceledEnv oneBundle [Target ''T1''] ''FOO'' =
     Returned (failed (ErrInvalidResumeState (ErrOther ''invalid character'')) [] [] [] [])"
    by code_simp
  then show ?thesis
    by (simp add: canceledEnv_def calmEnv_def failed_def)
qed

subsection \<open>The keys of the map of target states\<close>

lemma seedTargets_distinct:
  "distinct (map fst ts) \<Longrightarrow> distinct (map fst (seedTargets targets ts))"
  by (induction targets arbitrary: ts) (simp_all add: Let_def distinct_update)

lemma seedTargets_keys:
  "set (map fst (seedTargets targets ts)) = set (map fst ts) \<union> ID ` set targets"
proof (induction targets arbitrary: ts)
  case Nil
  then show ?case by simp
next
  case (Cons x targets)
  show ?case
    unfolding seedTargets.simps Let_def Cons.IH
    by (simp add: dom_update)
qed

lemma initTargets_keys: "initTargets E ts = Continues ts' \<Longrightarrow> map fst ts' = map fst ts"
  by (induction E ts arbitrary: ts' rule: initTargets.induct)
     (auto split: option.splits stage.splits)

lemma runHandlers_keys: "runHandlers ss he ts = Returned hs \<Longrightarrow> map fst hs = map fst ts"
  by (induction ss he ts arbitrary: hs rule: runHandlers.induct)
     (auto split: outcome.splits)

lemma examine_keys:
  "examine E n targets ts ok = Continues (ts', ok') \<Longrightarrow> map fst ts' = map fst ts"
proof (induction targets arbitrary: ts ok)
  case Nil
  then show ?case by simp
next
  case (Cons x targets)
  from Cons.prems obtain tgs vars where
    l: "map_of ts (ID x) = Some tgs" and
    r: "examine E n targets (AList.update (ID x) (tgs\<lparr>StepsVariables := vars\<rparr>) ts)
          (if stepGetError E (nat (CurStep tgs)) \<noteq> None \<and>
              stepGetError E (nat (CurStep tgs)) \<noteq> Some ErrPaused then False
           else if CurPhase tgs = targetStepPhaseRun \<and>
              stepGetError E (nat (CurStep tgs)) \<noteq> Some ErrPaused then False else ok)
         = Continues (ts', ok')"
    by (auto simp: Let_def split: option.splits sum.splits if_splits)
  from l have "ID x \<in> set (map fst ts)"
    by (metis map_of_eq_None_iff option.distinct(1) set_map)
  with Cons.IH[OF r] show ?case
    by (simp add: update_keys)
qed

lemma setUp_keys:
  assumes "setUp tr E t targets b = Continues (ts, ss)" and "decodesMaps E b"
  shows "distinct (map fst ts) \<and> ID ` set targets \<subseteq> set (map fst ts)"
proof -
  from assms(1) obtain rs where p: "parseResume E b = Inr rs"
    and i: "initTargets E (seedTargets targets (Targets rs)) = Continues ts"
    by (auto simp: setUp_def split: sum.splits option.splits stage.splits outcome.splits)
  from p assms(2) have "distinct (map fst (Targets rs))"
    by (auto simp: parseResume_def decodesMaps_def split: if_splits sum.splits)
  with initTargets_keys[OF i] seedTargets_distinct[of "Targets rs" targets]
    seedTargets_keys[of targets "Targets rs"]
  show ?thesis by auto
qed

lemma targetsResults_keys: "fst ` set (targetsResults n ts) \<subseteq> fst ` set ts"
  by (induction n ts rule: targetsResults.induct) auto

lemma targetsResults_map_of:
  "distinct (map fst ts) \<Longrightarrow>
     map_of (targetsResults n ts) targetID =
       (case map_of ts targetID of None \<Rightarrow> None | Some st \<Rightarrow> resultOf n st)"
proof (induction ts)
  case Nil
  then show ?case by simp
next
  case (Cons p rest)
  obtain k state where p: "p = (k, state)" by (cases p)
  from Cons.prems p have d: "distinct (map fst rest)" and nk: "k \<notin> fst ` set rest"
    by auto
  from nk targetsResults_keys[of n rest] have "k \<notin> fst ` set (targetsResults n rest)"
    by blast
  then have absent: "map_of (targetsResults n rest) k = None"
    by (simp add: map_of_eq_None_iff)
  show ?case
  proof (cases "targetID = k")
    case True
    with p absent show ?thesis by (simp add: resultOf_def)
  next
    case False
    with p Cons.IH[OF d] show ?thesis by simp
  qed
qed

subsection \<open>The results map\<close>

lemma Run_results:
  assumes "Run tr E t targets b = Returned r" and "decodesMaps E b"
  shows "rErr r \<noteq> Some ErrPaused \<and> rErr r \<noteq> None \<and> rSnapshot r = [] \<and> rResults r = None \<or>
         (rErr r = None \<or> rErr r = Some ErrPaused) \<and>
         rResults r = Some (targetsResults (int (length (rSteps r))) (rTargetStates r)) \<and>
         distinct (map fst (rTargetStates r)) \<and>
         ID ` set targets \<subseteq> set (map fst (rTargetStates r))"
  using assms(1)
proof (cases rule: Run_Returned_cases)
  case (early e)
  with setUp_Fails[OF early(1)] show ?thesis
    by (auto simp: failed_def)
next
  case (lookup ts ss hs e trs cs)
  from examine_Fails[OF lookup(3)] lookup(4) show ?thesis
    by (auto simp: failed_def)
next
  case (examined ts ss hs ts2 resumeOk srs trs cs)
  have k: "map fst ts2 = map fst ts"
    using examine_keys[OF examined(3)] runHandlers_keys[OF examined(2)]
    by (simp add: comp_def case_prod_unfold)
  note sk = setUp_keys[OF examined(1) assms(2)]
  have k': "fst ` set ts2 = fst ` set ts"
    using k by (metis set_map)
  show ?thesis
  proof (cases "runErrOf E ss hs")
    case (Some e)
    with runErrOf_not_paused[of E ss hs] examined(4) show ?thesis
      by (auto simp: finish_def failed_def)
  next
    case None
    with examined(4) k k' sk show ?thesis
      by (auto simp: finish_def failed_def split: if_splits sum.splits)
  qed
qed


text \<open>
  C3. When \<open>Run\<close> returns with a nil or Paused error, the results map is computed from
  the final state of each target: the target's \<open>Res\<close> if it is set, else nil if the
  target is at the last step of the pipeline in phase end, else no entry. Every target of
  the list has a state, and an ID without a state has no entry.
\<close>

theorem Run_results_per_target:
  assumes "Run tr E t targets b = Returned r"
    and "rErr r = None \<or> rErr r = Some ErrPaused"
    and "decodesMaps E b"
  shows "\<exists>res. rResults r = Some res \<and>
     (\<forall>x \<in> set targets. map_of (rTargetStates r) (ID x) \<noteq> None) \<and>
     (\<forall>targetID st. map_of (rTargetStates r) targetID = Some st \<longrightarrow>
        map_of res targetID =
          (if Res st \<noteq> None then Some (Res st)
           else if CurStep st = int (length (rSteps r)) - 1 \<and> CurPhase st = targetStepPhaseEnd
           then Some None
           else None)) \<and>
     (\<forall>targetID. map_of (rTargetStates r) targetID = None \<longrightarrow> map_of res targetID = None)"
proof -
  from Run_results[OF assms(1,3)] assms(2)
  have res: "rResults r = Some (targetsResults (int (length (rSteps r))) (rTargetStates r))"
    and d: "distinct (map fst (rTargetStates r))"
    and k: "ID ` set targets \<subseteq> set (map fst (rTargetStates r))"
    by auto
  note m = targetsResults_map_of[OF d, of "int (length (rSteps r))"]
  have "\<forall>x \<in> set targets. map_of (rTargetStates r) (ID x) \<noteq> None"
    using k by (auto simp: map_of_eq_None_iff)
  with res m show ?thesis
    by (simp add: resultOf_def)
qed

lemma Run_mixed:
  "Run (NewTestRunnerWithTimeouts 3) mixedEnv oneBundle [Target ''T1'', Target ''T2''] [] =
     Returned mixedRun"
  by code_simp

theorem Run_results_per_target_witness:
  "Run (NewTestRunnerWithTimeouts 3) mixedEnv oneBundle [Target ''T1'', Target ''T2''] [] =
     Returned mixedRun \<and>
   rErr mixedRun = None \<and> decodesMaps mixedEnv [] \<and>
   rResults mixedRun = Some [(''T1'', Some (ErrOther ''target failed'')), (''T2'', None)] \<and>
   map_of (rTargetStates mixedRun) ''T1'' = Some failedT1 \<and>
   Res failedT1 = Some (ErrOther ''target failed'') \<and>
   map_of (rTargetStates mixedRun) ''T2'' = Some passedT2 \<and>
   Res passedT2 = None \<and> CurStep passedT2 = int (length (rSteps mixedRun)) - 1 \<and>
   CurPhase passedT2 = targetStepPhaseEnd"
proof -
  have e: "rErr mixedRun = None \<or> rErr mixedRun = Some ErrPaused"
    by (simp add: mixedRun_def)
  have dm: "decodesMaps mixedEnv []"
    by (simp add: decodesMaps_def)
  from Run_results_per_target[OF Run_mixed e dm] Run_mixed dm
  show ?thesis
    by (simp add: mixedRun_def failedT1_def passedT2_def)
qed

text \<open>
  C2 (amended). When \<open>Run\<close> returns with a nil or Paused error, the ID of a target of
  the list is a key of the results map if and only if the target is terminal: it has a
  result, or it is at the last step in phase end. When \<open>Run\<close> returns any other error,
  the results map is nil, whatever the targets reached.
\<close>

theorem Run_results_presence:
  assumes "Run tr E t targets b = Returned r"
    and "decodesMaps E b"
    and "x \<in> set targets"
  shows "(rErr r = None \<or> rErr r = Some ErrPaused \<longrightarrow>
           (\<exists>res st. rResults r = Some res \<and> map_of (rTargetStates r) (ID x) = Some st \<and>
              (ID x \<in> fst ` set res) = terminal (int (length (rSteps r))) st)) \<and>
         (rErr r \<noteq> None \<and> rErr r \<noteq> Some ErrPaused \<longrightarrow> rResults r = None)"
proof (intro conjI impI)
  assume "rErr r = None \<or> rErr r = Some ErrPaused"
  with Run_results[OF assms(1,2)]
  have res: "rResults r = Some (targetsResults (int (length (rSteps r))) (rTargetStates r))"
    and d: "distinct (map fst (rTargetStates r))"
    and k: "ID ` set targets \<subseteq> set (map fst (rTargetStates r))"
    by auto
  from k assms(3) obtain st where st: "map_of (rTargetStates r) (ID x) = Some st"
    by (cases "map_of (rTargetStates r) (ID x)") (auto simp: map_of_eq_None_iff)
  have "(ID x \<in> fst ` set (targetsResults (int (length (rSteps r))) (rTargetStates r))) =
        (map_of (targetsResults (int (length (rSteps r))) (rTargetStates r)) (ID x) \<noteq> None)"
    by (simp add: map_of_eq_None_iff)
  also have "\<dots> = terminal (int (length (rSteps r))) st"
    using targetsResults_map_of[OF d, of "int (length (rSteps r))" "ID x"] st
    by (auto simp: resultOf_def terminal_def)
  finally show "\<exists>res st. rResults r = Some res \<and> map_of (rTargetStates r) (ID x) = Some st \<and>
              (ID x \<in> fst ` set res) = terminal (int (length (rSteps r))) st"
    using res st by simp
next
  assume "rErr r \<noteq> None \<and> rErr r \<noteq> Some ErrPaused"
  with Run_results[OF assms(1,2)] show "rResults r = None" by auto
qed

lemma Run_failHang:
  "Run (NewTestRunnerWithTimeouts 3) failHangEnv oneBundle [Target ''T1''] [] = Returned failHangRun"
  by code_simp

theorem Run_results_presence_witness:
  "Run (NewTestRunnerWithTimeouts 3) mixedEnv oneBundle [Target ''T1'', Target ''T2''] [] =
     Returned mixedRun \<and>
   decodesMaps mixedEnv [] \<and> Target ''T2'' \<in> set [Target ''T1'', Target ''T2''] \<and>
   rErr mixedRun = None \<and>
   ''T2'' \<in> fst ` set [(''T1'', Some (ErrOther ''target failed'')), (''T2'', None)] \<and>
   terminal (int (length (rSteps mixedRun))) passedT2 \<and>
   Run (NewTestRunnerWithTimeouts 3) failHangEnv oneBundle [Target ''T1''] [] =
     Returned failHangRun \<and>
   decodesMaps failHangEnv [] \<and> Target ''T1'' \<in> set [Target ''T1''] \<and>
   rErr failHangRun = Some (ErrTestStepsNeverReturned [''Step1'']) \<and>
   rResults failHangRun = None"
proof -
  have dm: "decodesMaps mixedEnv []" "decodesMaps failHangEnv []"
    by (simp_all add: decodesMaps_def)
  have m: "Target ''T2'' \<in> set [Target ''T1'', Target ''T2'']" "Target ''T1'' \<in> set [Target ''T1'']"
    by simp_all
  from Run_results_presence[OF Run_mixed dm(1) m(1)]
    Run_results_presence[OF Run_failHang dm(2) m(2)] Run_mixed Run_failHang dm
  show ?thesis
    by (simp add: mixedRun_def failHangRun_def passedT2_def terminal_def)
qed

text \<open>
  The claim as stated fails on a fatal run error: the only target failed in the only step,
  so it is terminal, the step then did not return before the deadline, and \<open>Run\<close>
  returns NeverReturned with a nil results map, in which the target is not a key.
\<close>

theorem Run_fatal_drops_results:
  "Run (NewTestRunnerWithTimeouts 3) failHangEnv oneBundle [Target ''T1''] [] =
     Returned failHangRun \<and>
   map_of (rTargetStates failHangRun) ''T1'' = Some failedT1 \<and>
   terminal (int (length (rSteps failHangRun))) failedT1 \<and>
   rErr failHangRun = Some (ErrTestStepsNeverReturned [''Step1'']) \<and>
   rResults failHangRun = None"
  using Run_failHang
  by (simp add: failHangRun_def failedT1_def terminal_def)

subsection \<open>A run with no steps\<close>

lemma update_mem:
  "(k, v) \<in> set (AList.update k' v' al) \<Longrightarrow> (k, v) = (k', v') \<or> (k, v) \<in> set al"
  by (induction al) (auto split: if_splits)

lemma update_other_mem:
  "k \<noteq> k' \<Longrightarrow> ((k, v) \<in> set (AList.update k' v' al)) = ((k, v) \<in> set al)"
  by (induction al) auto

lemma seedTargets_fresh:
  "\<forall>(k, v) \<in> set ts. \<exists>x. v = Some (freshState x) \<Longrightarrow>
   \<forall>(k, v) \<in> set (seedTargets targets ts). \<exists>x. v = Some (freshState x)"
proof (induction targets arbitrary: ts)
  case Nil
  then show ?case by simp
next
  case (Cons y targets)
  let ?tgs = "(case map_of ts (ID y) of
                   Some (Some s) \<Rightarrow> s
                 | _ \<Rightarrow> \<lparr>tgt = None, CurStep = 0, CurPhase = targetStepPhaseInit,
                          Res = None, StepsVariables = []\<rparr>)"
  have new: "?tgs\<lparr>tgt := Some y\<rparr> = freshState y"
  proof (cases "map_of ts (ID y)")
    case None
    then show ?thesis by (simp add: freshState_def)
  next
    case (Some v)
    then have "(ID y, v) \<in> set ts" by (rule map_of_SomeD)
    with Cons.prems obtain x where "v = Some (freshState x)" by auto
    with Some show ?thesis by (simp add: freshState_def)
  qed
  have "\<forall>(k, v) \<in> set (AList.update (ID y) (Some (?tgs\<lparr>tgt := Some y\<rparr>)) ts).
          \<exists>x. v = Some (freshState x)"
    using Cons.prems new by (auto dest!: update_mem)
  from Cons.IH[OF this] show ?case by (simp add: Let_def)
qed

lemma initTargets_fresh:
  "\<forall>(k, v) \<in> set ts. (\<exists>x. v = Some (freshState x)) \<and> initTargetStepsVariables E k [] = None \<Longrightarrow>
   \<exists>ts'. initTargets E ts = Continues ts' \<and> map fst ts' = map fst ts \<and>
         (\<forall>(k, s) \<in> set ts'. \<exists>x. s = freshState x)"
proof (induction ts)
  case Nil
  then show ?case by simp
next
  case (Cons p ts)
  obtain k v where p: "p = (k, v)" by (cases p)
  from Cons.prems p obtain x where v: "v = Some (freshState x)"
    and i: "initTargetStepsVariables E k [] = None" by auto
  from Cons.prems have "\<forall>(k, v) \<in> set ts. (\<exists>x. v = Some (freshState x)) \<and>
      initTargetStepsVariables E k [] = None" by simp
  from Cons.IH[OF this] obtain ts' where "initTargets E ts = Continues ts'"
     "map fst ts' = map fst ts" "\<forall>(k, s) \<in> set ts'. \<exists>x. s = freshState x" by blast
  with p v i show ?case by (auto simp: freshState_def)
qed

lemma handleTarget_no_steps:
  "handleTarget [] E (freshState x) = Returned \<lparr>hErr = None, hState = freshState x, hTrace = []\<rparr>"
  by (simp add: handleTarget_def freshState_def targetLoop.simps)

lemma runHandlers_no_steps:
  "\<forall>(k, s) \<in> set ts. \<exists>x. s = freshState x \<Longrightarrow>
   \<exists>hs. runHandlers [] he ts = Returned hs \<and> map (\<lambda>(k, r). (k, hState r)) hs = ts"
proof (induction ts)
  case Nil
  then show ?case by simp
next
  case (Cons p ts)
  obtain k s where p: "p = (k, s)" by (cases p)
  from Cons.prems p obtain x where s: "s = freshState x" by auto
  from Cons.prems have "\<forall>(k, s) \<in> set ts. \<exists>x. s = freshState x" by simp
  from Cons.IH[OF this] obtain hs where "runHandlers [] he ts = Returned hs"
    "map (\<lambda>(k, r). (k, hState r)) hs = ts" by blast
  with p s show ?case by (simp add: handleTarget_no_steps)
qed

text \<open>
  C9. \<open>Run\<close> on a runner as \<open>NewTestRunnerWithTimeouts\<close> makes it, with an empty list
  of step bundles, at least one target and no resume state: when the steps-variables
  container accepts the set-up and the look-up for the first target, the final state
  examination indexes the empty \<open>tr.steps\<close> at that target's \<open>CurStep\<close>, which is 0,
  and the run ends in an index-out-of-range panic instead of returning.
\<close>

theorem Run_empty_pipeline_panics:
  assumes "TestStepsBundles t = []"
    and "targets = x # rest"
    and "newTestStepsVariables E [] = None"
    and "\<forall>y \<in> set targets. initTargetStepsVariables E (ID y) [] = None"
    and "getTargetStepsVariables E (ID x) = Inr vars"
  shows "Run (NewTestRunnerWithTimeouts d) E t targets [] = Panicked IndexOutOfRange"
proof -
  let ?seeded = "seedTargets targets []"
  have fresh: "\<forall>(k, v) \<in> set ?seeded. \<exists>x. v = Some (freshState x)"
    by (rule seedTargets_fresh) simp
  have keys: "fst ` set ?seeded = ID ` set targets"
    using seedTargets_keys[of targets "[]"] by simp
  have "\<forall>(k, v) \<in> set ?seeded. (\<exists>x. v = Some (freshState x)) \<and>
          initTargetStepsVariables E k [] = None"
  proof (clarify, intro conjI)
    fix k v assume kv: "(k, v) \<in> set ?seeded"
    with fresh show "\<exists>x. v = Some (freshState x)" by auto
    from kv have "k \<in> fst ` set ?seeded" by force
    with keys assms(4) show "initTargetStepsVariables E k [] = None" by auto
  qed
  from initTargets_fresh[OF this] obtain ts where
    it: "initTargets E ?seeded = Continues ts" and
    tk: "map fst ts = map fst ?seeded" and
    tf: "\<forall>(k, s) \<in> set ts. \<exists>x. s = freshState x" by blast
  have su: "setUp (NewTestRunnerWithTimeouts d) E t targets [] = Continues (ts, [])"
    using assms(1,3) it
    by (simp add: setUp_def parseResume_def NewTestRunnerWithTimeouts_def)
  from runHandlers_no_steps[OF tf] obtain hs where
    rh: "runHandlers [] (handlerEnvOf E) ts = Returned hs" and
    hs: "map (\<lambda>(k, r). (k, hState r)) hs = ts" by blast
  have "ID x \<in> fst ` set ts"
    using tk keys assms(2) by (metis image_eqI list.set_intros(1) set_map)
  then obtain s where ms: "map_of ts (ID x) = Some s"
    by (cases "map_of ts (ID x)") (auto simp: map_of_eq_None_iff)
  then have "(ID x, s) \<in> set ts" by (rule map_of_SomeD)
  with tf obtain y where "s = freshState y" by auto
  then have cs: "CurStep s = 0" by (simp add: freshState_def)
  have ex: "examine E 0 targets ts ok = Panics IndexOutOfRange" for ok
    using assms(2,5) ms cs by simp
  show ?thesis
    using su rh hs ex
    by (simp add: Run_def runPipeline_def Let_def split: prod.splits)
qed

lemma Run_noBundle:
  "Run (NewTestRunnerWithTimeouts 3) calmEnv noBundle [Target ''T1''] [] = Panicked IndexOutOfRange"
  by code_simp

theorem Run_empty_pipeline_panics_witness:
  "TestStepsBundles noBundle = [] \<and> [Target ''T1''] = Target ''T1'' # [] \<and>
   newTestStepsVariables calmEnv [] = None \<and>
   list_all (\<lambda>y. initTargetStepsVariables calmEnv (ID y) [] = None) [Target ''T1''] \<and>
   getTargetStepsVariables calmEnv (ID (Target ''T1'')) = Inr [] \<and>
   Run (NewTestRunnerWithTimeouts 3) calmEnv noBundle [Target ''T1''] [] = Panicked IndexOutOfRange"
proof -
  have h1: "TestStepsBundles noBundle = []" by (simp add: noBundle_def)
  have h2: "[Target ''T1''] = Target ''T1'' # []" by simp
  have h3: "newTestStepsVariables calmEnv [] = None" by (simp add: calmEnv_def)
  have h4: "\<forall>y \<in> set [Target ''T1'']. initTargetStepsVariables calmEnv (ID y) [] = None"
    by (simp add: calmEnv_def)
  have h5: "getTargetStepsVariables calmEnv (ID (Target ''T1'')) = Inr []"
    by (simp add: calmEnv_def)
  from Run_empty_pipeline_panics[OF h1 h2 h3 h4 h5, of 3] h1 h3 h4 h5
  show ?thesis by simp
qed

subsection \<open>A snapshot with a target that is not listed\<close>

lemma seedTargets_other:
  "k \<notin> ID ` set targets \<Longrightarrow> (k, v) \<in> set ts \<Longrightarrow> (k, v) \<in> set (seedTargets targets ts)"
proof (induction targets arbitrary: ts)
  case Nil
  then show ?case by simp
next
  case (Cons y targets)
  from Cons.prems have "k \<noteq> ID y" "k \<notin> ID ` set targets" by auto
  with Cons.prems(2) Cons.IH show ?case
    by (simp add: Let_def update_other_mem)
qed

lemma initTargets_mem:
  "initTargets E ts = Continues ts' \<Longrightarrow> (k, Some s) \<in> set ts \<Longrightarrow> (k, s) \<in> set ts'"
  by (induction E ts arbitrary: ts' rule: initTargets.induct)
     (auto split: option.splits stage.splits)

lemma handleTarget_nil_target:
  "tgt s = None \<Longrightarrow> handleTarget ss E s = Panicked NilPointerDereference"
  by (simp add: handleTarget_def)

lemma runHandlers_nil_target:
  "(k, s) \<in> set ts \<Longrightarrow> tgt s = None \<Longrightarrow> \<exists>p. runHandlers ss he ts = Panicked p"
proof (induction ts)
  case Nil
  then show ?case by simp
next
  case (Cons q ts)
  obtain k' s' where q: "q = (k', s')" by (cases q)
  show ?case
  proof (cases "handleTarget ss (he k') s'")
    case (Panicked p)
    with q show ?thesis by simp
  next
    case (Returned r)
    with Cons.prems q have "(k, s) \<in> set ts"
      by (auto simp: handleTarget_nil_target)
    from Cons.IH[OF this Cons.prems(2)] obtain p where "runHandlers ss he ts = Panicked p" ..
    with q Returned show ?thesis by simp
  qed
qed

lemma collectTargets_panics:
  "nilRunning ts i \<Longrightarrow> collectTargets i ts c rts = Panicked NilPointerDereference"
proof (induction ts arbitrary: c rts)
  case Nil
  then show ?case by (simp add: nilRunning_def)
next
  case (Cons q ts)
  obtain k st where q: "q = (k, st)" by (cases q)
  show ?case
  proof (cases "CurStep st = i \<and> CurPhase st = targetStepPhaseRun")
    case True
    show ?thesis
    proof (cases "tgt st")
      case None
      with q True show ?thesis by simp
    next
      case (Some x)
      with Cons.prems q have "nilRunning ts i" by (simp add: nilRunning_def)
      from Cons.IH[OF this] q True Some show ?thesis by (simp add: Let_def)
    qed
  next
    case False
    with Cons.prems q have "nilRunning ts i" by (auto simp: nilRunning_def)
    from Cons.IH[OF this] q False show ?thesis by (auto simp: Let_def)
  qed
qed

lemma collectTargets_returns:
  "\<not> nilRunning ts i \<Longrightarrow> \<exists>c' rts'. collectTargets i ts c rts = Returned (c', rts')"
proof (induction ts arbitrary: c rts)
  case Nil
  then show ?case by simp
next
  case (Cons q ts)
  obtain k st where q: "q = (k, st)" by (cases q)
  from Cons.prems q have rest: "\<not> nilRunning ts i"
    and here: "CurStep st = i \<and> CurPhase st = targetStepPhaseRun \<longrightarrow> tgt st \<noteq> None"
    by (auto simp: nilRunning_def)
  from Cons.IH[OF rest] q here show ?case
    by (auto simp: Let_def)
qed

lemma buildSteps_panics:
  "\<exists>j < length bs. nilRunning ts (int (i + j)) \<Longrightarrow>
     buildSteps srss ts i bs acc = Panicked NilPointerDereference"
proof (induction bs arbitrary: i acc)
  case Nil
  then show ?case by simp
next
  case (Cons sb bs)
  show ?case
  proof (cases "nilRunning ts (int i)")
    case True
    from collectTargets_panics[OF this] show ?thesis by (simp add: Let_def)
  next
    case False
    from Cons.prems obtain j where j: "j < length (sb # bs)" "nilRunning ts (int (i + j))"
      by blast
    with False have "j \<noteq> 0" by (cases j) auto
    then obtain j' where j': "j = Suc j'" by (cases j) auto
    with j have "\<exists>j < length bs. nilRunning ts (int (Suc i + j))" by auto
    note ih = Cons.IH[OF this]
    from collectTargets_returns[OF False] obtain c' rts' where
      "collectTargets (int i) ts 0 [] = Returned (c', rts')" by blast
    with ih show ?thesis by (simp add: Let_def)
  qed
qed

lemma buildSteps_returns:
  "\<not> (\<exists>j < length bs. nilRunning ts (int (i + j))) \<Longrightarrow>
     \<exists>ss. buildSteps srss ts i bs acc = Returned ss"
proof (induction bs arbitrary: i acc)
  case Nil
  then show ?case by simp
next
  case (Cons sb bs)
  from Cons.prems have here: "\<not> nilRunning ts (int i)"
    by (auto dest: spec[of _ 0])
  have "\<not> (\<exists>j < length bs. nilRunning ts (int (Suc i + j)))"
  proof
    assume "\<exists>j < length bs. nilRunning ts (int (Suc i + j))"
    then obtain j where "j < length bs" "nilRunning ts (int (Suc i + j))" by blast
    then have "Suc j < length (sb # bs)" "nilRunning ts (int (i + Suc j))" by simp_all
    with Cons.prems show False by blast
  qed
  note ih = Cons.IH[OF this]
  from collectTargets_returns[OF here] obtain c' rts' where
    "collectTargets (int i) ts 0 [] = Returned (c', rts')" by blast
  with ih show ?case by (simp add: Let_def)
qed

lemma runHandlers_panic_of_handler:
  "runHandlers ss he ts = Panicked p \<Longrightarrow>
     \<exists>(k, st) \<in> set ts. handleTarget ss (he k) st = Panicked p"
proof (induction ts)
  case Nil
  then show ?case by simp
next
  case (Cons q ts)
  obtain k st where q: "q = (k, st)" by (cases q)
  show ?case
  proof (cases "handleTarget ss (he k) st")
    case (Panicked p')
    with Cons.prems q show ?thesis by simp
  next
    case (Returned r)
    with Cons.prems q have "runHandlers ss he ts = Panicked p"
      by (simp split: outcome.splits)
    from Cons.IH[OF this] show ?thesis by auto
  qed
qed

text \<open>
  C10 (amended). \<open>Run\<close> does not check that the IDs of the snapshot are among the
  targets it is given. When the decoded snapshot holds a state for an ID that is not in
  the list, that state keeps its nil target pointer through the set-up, and a handler
  that runs on it dereferences the nil pointer, whatever the pipeline is. When the
  steps-variables set-up succeeds, \<open>Run\<close> does not return. If some state of the map
  with a nil target pointer is in phase run at a step of the pipeline, \<open>Run\<close> panics on
  that nil pointer while it builds the pipeline, before any handler is started. Otherwise
  the pipeline is built, the handlers are started on the states of the map, and \<open>Run\<close>
  ends in the panic of one of them: the nil-pointer dereference, unless the handler of
  some state panics on an index out of range.
\<close>

theorem Run_unlisted_snapshot_target:
  assumes "parseResume E b = Inr rs"
    and "(targetID, Some s) \<in> set (Targets rs)"
    and "tgt s = None"
    and "targetID \<notin> ID ` set targets"
    and "newTestStepsVariables E (TestStepsBundles t) = None"
    and "initTargets E (seedTargets targets (Targets rs)) = Continues ts"
  shows "(targetID, s) \<in> set ts \<and>
     (\<forall>ss. handleTarget ss (handlerEnvOf E targetID) s = Panicked NilPointerDereference) \<and>
     ((\<exists>i < length (TestStepsBundles t). nilRunning ts (int i)) \<longrightarrow>
        setUp tr E t targets b = Panics NilPointerDereference \<and>
        Run tr E t targets b = Panicked NilPointerDereference) \<and>
     (\<not> (\<exists>i < length (TestStepsBundles t). nilRunning ts (int i)) \<longrightarrow>
        (\<exists>ss p. setUp tr E t targets b = Continues (ts, ss) \<and>
           Run tr E t targets b = Panicked p \<and>
           (\<exists>(k, st) \<in> set ts. handleTarget ss (handlerEnvOf E k) st = Panicked p) \<and>
           ((\<forall>(k, st) \<in> set ts.
                handleTarget ss (handlerEnvOf E k) st \<noteq> Panicked IndexOutOfRange) \<longrightarrow>
              p = NilPointerDereference)))"
proof (intro conjI impI)
  show mem: "(targetID, s) \<in> set ts"
    using initTargets_mem[OF assms(6) seedTargets_other[OF assms(4,2)]] .
  show "\<forall>ss. handleTarget ss (handlerEnvOf E targetID) s = Panicked NilPointerDereference"
    using assms(3) by (simp add: handleTarget_nil_target)
  {
    assume "\<exists>i < length (TestStepsBundles t). nilRunning ts (int i)"
    then have "\<exists>j < length (TestStepsBundles t). nilRunning ts (int (0 + j))" by simp
    from buildSteps_panics[OF this]
    have "buildSteps (StepResumeState rs) ts 0 (TestStepsBundles t) (steps tr) =
            Panicked NilPointerDereference" .
    with assms(1,5,6) show su: "setUp tr E t targets b = Panics NilPointerDereference"
      by (simp add: setUp_def)
    then show "Run tr E t targets b = Panicked NilPointerDereference"
      by (simp add: Run_def)
  }
  {
    assume "\<not> (\<exists>i < length (TestStepsBundles t). nilRunning ts (int i))"
    then have "\<not> (\<exists>j < length (TestStepsBundles t). nilRunning ts (int (0 + j)))" by simp
    from buildSteps_returns[OF this] obtain ss where
      "buildSteps (StepResumeState rs) ts 0 (TestStepsBundles t) (steps tr) = Returned ss"
      by blast
    with assms(1,5,6) have su: "setUp tr E t targets b = Continues (ts, ss)"
      by (simp add: setUp_def)
    from runHandlers_nil_target[OF mem assms(3)] obtain p where
      rh: "runHandlers ss (handlerEnvOf E) ts = Panicked p" ..
    with su have run: "Run tr E t targets b = Panicked p"
      by (simp add: Run_def runPipeline_def)
    from runHandlers_panic_of_handler[OF rh]
    have one: "\<exists>(k, st) \<in> set ts. handleTarget ss (handlerEnvOf E k) st = Panicked p" .
    then have "(\<forall>(k, st) \<in> set ts.
                handleTarget ss (handlerEnvOf E k) st \<noteq> Panicked IndexOutOfRange) \<longrightarrow>
              p = NilPointerDereference"
      by (cases p) auto
    with su run one
    show "\<exists>ss p. setUp tr E t targets b = Continues (ts, ss) \<and>
           Run tr E t targets b = Panicked p \<and>
           (\<exists>(k, st) \<in> set ts. handleTarget ss (handlerEnvOf E k) st = Panicked p) \<and>
           ((\<forall>(k, st) \<in> set ts.
                handleTarget ss (handlerEnvOf E k) st \<noteq> Panicked IndexOutOfRange) \<longrightarrow>
              p = NilPointerDereference)"
      by blast
  }
qed

lemma Run_strayBegin:
  "Run (NewTestRunnerWithTimeouts 3) strayEnv oneBundle [Target ''T1''] ''{V:2,T:{TX:{P:2}}}'' =
     Panicked NilPointerDereference"
  by code_simp

lemma setUp_strayBegin:
  "setUp (NewTestRunnerWithTimeouts 3) strayEnv oneBundle [Target ''T1''] ''{V:2,T:{TX:{P:2}}}'' =
     Continues ([(''TX'', strayBegin), (''T1'', freshT1)],
                [newStepState 0 2 \<lparr>TestStepLabel = ''Step1''\<rparr> [] []])"
  by code_simp

theorem Run_unlisted_snapshot_target_witness:
  "parseResume strayEnv ''{V:2,T:{TX:{P:2}}}'' =
     Inr \<lparr>Version = 2, Targets = [(''TX'', Some strayBegin)], StepResumeState = []\<rparr> \<and>
   tgt strayBegin = None \<and> ''TX'' \<notin> ID ` set [Target ''T1''] \<and>
   newTestStepsVariables strayEnv (TestStepsBundles oneBundle) = None \<and>
   initTargets strayEnv (seedTargets [Target ''T1''] [(''TX'', Some strayBegin)]) =
     Continues [(''TX'', strayBegin), (''T1'', freshT1)] \<and>
   \<not> nilRunning [(''TX'', strayBegin), (''T1'', freshT1)] 0 \<and>
   length (TestStepsBundles oneBundle) = 1 \<and>
   setUp (NewTestRunnerWithTimeouts 3) strayEnv oneBundle [Target ''T1''] ''{V:2,T:{TX:{P:2}}}'' =
     Continues ([(''TX'', strayBegin), (''T1'', freshT1)],
                [newStepState 0 2 \<lparr>TestStepLabel = ''Step1''\<rparr> [] []]) \<and>
   Run (NewTestRunnerWithTimeouts 3) strayEnv oneBundle [Target ''T1''] ''{V:2,T:{TX:{P:2}}}'' =
     Panicked NilPointerDereference \<and>
   handleTarget [newStepState 0 2 \<lparr>TestStepLabel = ''Step1''\<rparr> [] []]
     (handlerEnvOf strayEnv ''TX'') strayBegin = Panicked NilPointerDereference"
proof -
  let ?rs = "\<lparr>Version = 2, Targets = [(''TX'', Some strayBegin)], StepResumeState = []\<rparr>"
  have h1: "parseResume strayEnv ''{V:2,T:{TX:{P:2}}}'' = Inr ?rs"
    by (simp add: parseResume_def strayEnv_def calmEnv_def resumeStateStructVersion_def)
  have h2: "(''TX'', Some strayBegin) \<in> set (Targets ?rs)" by simp
  have h3: "tgt strayBegin = None" by (simp add: strayBegin_def)
  have h4: "''TX'' \<notin> ID ` set [Target ''T1'']" by simp
  have h5: "newTestStepsVariables strayEnv (TestStepsBundles oneBundle) = None"
    by (simp add: strayEnv_def calmEnv_def)
  have h6: "initTargets strayEnv (seedTargets [Target ''T1''] (Targets ?rs)) =
     Continues [(''TX'', strayBegin), (''T1'', freshT1)]"
    by (simp add: strayEnv_def calmEnv_def strayBegin_def freshT1_def)
  have nr: "\<not> nilRunning [(''TX'', strayBegin), (''T1'', freshT1)] 0"
    by (simp add: nilRunning_def strayBegin_def freshT1_def phase_defs)
  have len: "length (TestStepsBundles oneBundle) = 1" by (simp add: oneBundle_def)
  from Run_unlisted_snapshot_target[OF h1 h2 h3 h4 h5 h6, of "NewTestRunnerWithTimeouts 3"]
  have "handleTarget [newStepState 0 2 \<lparr>TestStepLabel = ''Step1''\<rparr> [] []]
     (handlerEnvOf strayEnv ''TX'') strayBegin = Panicked NilPointerDereference"
    by blast
  with h1 h3 h4 h5 h6 nr len setUp_strayBegin Run_strayBegin
  show ?thesis by simp
qed

text \<open>
  The claim as stated fails for a state that the snapshot holds in phase run at a step of
  the pipeline: \<open>Run\<close> dereferences its nil target pointer while it collects the
  targets a step resumes with, before any handler is started.
\<close>

theorem Run_unlisted_running_target:
  "parseResume strayEnv ''{V:2,T:{TX:{P:3}}}'' =
     Inr \<lparr>Version = 2, Targets = [(''TX'', Some strayRun)], StepResumeState = []\<rparr> \<and>
   ''TX'' \<notin> ID ` set [Target ''T1''] \<and>
   collectTargets 0 [(''TX'', strayRun), (''T1'', freshT1)] 0 [] = Panicked NilPointerDereference \<and>
   setUp (NewTestRunnerWithTimeouts 3) strayEnv oneBundle [Target ''T1''] ''{V:2,T:{TX:{P:3}}}'' =
     Panics NilPointerDereference \<and>
   Run (NewTestRunnerWithTimeouts 3) strayEnv oneBundle [Target ''T1''] ''{V:2,T:{TX:{P:3}}}'' =
     Panicked NilPointerDereference"
proof -
  have "parseResume strayEnv ''{V:2,T:{TX:{P:3}}}'' =
     Inr \<lparr>Version = 2, Targets = [(''TX'', Some strayRun)], StepResumeState = []\<rparr>"
    by (simp add: parseResume_def strayEnv_def calmEnv_def resumeStateStructVersion_def)
  moreover have "collectTargets 0 [(''TX'', strayRun), (''T1'', freshT1)] 0 [] =
      Panicked NilPointerDereference"
    by (simp add: strayRun_def)
  moreover have "setUp (NewTestRunnerWithTimeouts 3) strayEnv oneBundle [Target ''T1'']
      ''{V:2,T:{TX:{P:3}}}'' = Panics NilPointerDereference"
    by code_simp
  ultimately show ?thesis
    by (simp add: Run_def)
qed

subsection \<open>The returned resume state\<close>

lemma Run_snapshot:
  assumes "Run tr E t targets b = Returned r"
  shows "(rErr r \<noteq> None \<and> rErr r \<noteq> Some ErrPaused \<longrightarrow> rSnapshot r = []) \<and>
         (rSnapshot r \<noteq> [] \<longrightarrow>
            rErr r = Some ErrPaused \<and> ctxPaused E \<or> rErr r = None \<and> rSnapshot r = b)"
  using assms
proof (cases rule: Run_Returned_cases)
  case (early e)
  then show ?thesis by (simp add: failed_def)
next
  case (lookup ts ss hs e trs cs)
  then show ?thesis by (simp add: failed_def)
next
  case (examined ts ss hs ts2 resumeOk srs trs cs)
  then show ?thesis
    by (auto simp: finish_def failed_def split: option.splits if_splits sum.splits)
qed

text \<open>
  C1 fails on the code. \<open>Run\<close> is started from a non-empty resume state and completes
  with a nil error, with no pause: it returns the bytes it was given, which are not
  empty. The last return statement of \<open>Run\<close> returns the parameter \<open>resumeState\<close>,
  which is overwritten only on the pause path.
\<close>

theorem Run_returns_given_snapshot:
  "Run (NewTestRunnerWithTimeouts 3) resumingEnv oneBundle [Target ''T1''] ''{V:2,T:{T1:{P:1}}}'' =
     Returned resumedRun \<and>
   rErr resumedRun = None \<and> rSnapshot resumedRun \<noteq> [] \<and> \<not> ctxPaused resumingEnv"
proof -
  have "Run (NewTestRunnerWithTimeouts 3) resumingEnv oneBundle [Target ''T1'']
          ''{V:2,T:{T1:{P:1}}}'' = Returned resumedRun"
    by code_simp
  then show ?thesis
    by (simp add: resumedRun_def resumingEnv_def calmEnv_def)
qed

end
